theory Spec2Isabelle
  imports Main "HOL-Library.Sublist" "HOL-Library.Multiset"
begin

section \<open>JavaScript strings and the URI built-ins\<close>

text \<open>
  A JavaScript string is modelled as a \<open>string\<close> holding its UTF-8 bytes. Every
  string operation the server uses (\<open>===\<close>, \<open>startsWith\<close>, \<open>endsWith\<close>,
  \<open>slice\<close> by the length of an ASCII key, \<open>+\<close>, the regular expression
  \<open>/\/+$/\<close>) compares or cuts at ASCII characters only, so it acts on the bytes as
  it acts on the code units.
\<close>

definition startsWith :: "string \<Rightarrow> string \<Rightarrow> bool" where
  "startsWith s p = prefix p s"

definition endsWith :: "string \<Rightarrow> string \<Rightarrow> bool" where
  "endsWith s p = suffix p s"

text \<open>\<open>s || d\<close>: the empty string is falsy.\<close>

definition orElse :: "string \<Rightarrow> string \<Rightarrow> string" where
  "orElse s d = (if s = [] then d else s)"

text \<open>\<open>s.slice(n)\<close> for \<open>n \<ge> 0\<close>.\<close>

definition slice_from :: "string \<Rightarrow> nat \<Rightarrow> string" where
  "slice_from s n = drop n s"

subsection \<open>decodeURIComponent\<close>

text \<open>
  \<open>decodeURIComponent\<close> (ECMA-262, Decode with an empty reserved set): every
  \<open>%\<close> must be followed by two hexadecimal digits; an octet below 128 is the
  character itself; an octet with 2, 3 or 4 leading one bits starts a UTF-8 sequence
  whose other octets must be escapes too, and the sequence must be the UTF-8 encoding
  of a code point (no overlong form, no surrogate, nothing above U+10FFFF). Any
  violation throws URIError, here \<open>None\<close>.
\<close>

definition hexval :: "char \<Rightarrow> nat option" where
  "hexval c = (let n = (of_char c :: nat) in
     if 48 \<le> n \<and> n \<le> 57 then Some (n - 48)
     else if 65 \<le> n \<and> n \<le> 70 then Some (n - 55)
     else if 97 \<le> n \<and> n \<le> 102 then Some (n - 87)
     else None)"

datatype uri_unit = Lit char | Esc nat

fun unescape :: "string \<Rightarrow> uri_unit list option" where
  "unescape [] = Some []"
| "unescape (c # cs) =
     (if c = CHR ''%'' then
        (case cs of
           h # l # rest \<Rightarrow>
             (case hexval h of
                None \<Rightarrow> None
              | Some a \<Rightarrow>
                  (case hexval l of
                     None \<Rightarrow> None
                   | Some b \<Rightarrow> map_option (Cons (Esc (16 * a + b))) (unescape rest)))
         | _ \<Rightarrow> None)
      else map_option (Cons (Lit c)) (unescape cs))"

definition utf8_cont :: "nat \<Rightarrow> bool" where
  "utf8_cont b = (128 \<le> b \<and> b \<le> 191)"

definition utf8_valid2 :: "nat \<Rightarrow> nat \<Rightarrow> bool" where
  "utf8_valid2 b0 b1 = (194 \<le> b0 \<and> b0 \<le> 223 \<and> utf8_cont b1)"

definition utf8_valid3 :: "nat \<Rightarrow> nat \<Rightarrow> nat \<Rightarrow> bool" where
  "utf8_valid3 b0 b1 b2 =
     (((b0 = 224 \<and> 160 \<le> b1 \<and> b1 \<le> 191) \<or>
       (225 \<le> b0 \<and> b0 \<le> 236 \<and> utf8_cont b1) \<or>
       (b0 = 237 \<and> 128 \<le> b1 \<and> b1 \<le> 159) \<or>
       (238 \<le> b0 \<and> b0 \<le> 239 \<and> utf8_cont b1)) \<and> utf8_cont b2)"

definition utf8_valid4 :: "nat \<Rightarrow> nat \<Rightarrow> nat \<Rightarrow> nat \<Rightarrow> bool" where
  "utf8_valid4 b0 b1 b2 b3 =
     (((b0 = 240 \<and> 144 \<le> b1 \<and> b1 \<le> 191) \<or>
       (241 \<le> b0 \<and> b0 \<le> 243 \<and> utf8_cont b1) \<or>
       (b0 = 244 \<and> 128 \<le> b1 \<and> b1 \<le> 143)) \<and> utf8_cont b2 \<and> utf8_cont b3)"

fun utf8_units :: "uri_unit list \<Rightarrow> string option" where
  "utf8_units [] = Some []"
| "utf8_units (Lit c # us) = map_option (Cons c) (utf8_units us)"
| "utf8_units (Esc b # us) =
     (if b < 128 then map_option (Cons (char_of b)) (utf8_units us)
      else if 192 \<le> b \<and> b < 224 then
        (case us of
           Esc b1 # r \<Rightarrow>
             (if utf8_valid2 b b1
              then map_option (\<lambda>s. char_of b # char_of b1 # s) (utf8_units r)
              else None)
         | _ \<Rightarrow> None)
      else if 224 \<le> b \<and> b < 240 then
        (case us of
           Esc b1 # Esc b2 # r \<Rightarrow>
             (if utf8_valid3 b b1 b2
              then map_option (\<lambda>s. char_of b # char_of b1 # char_of b2 # s) (utf8_units r)
              else None)
         | _ \<Rightarrow> None)
      else if 240 \<le> b \<and> b < 248 then
        (case us of
           Esc b1 # Esc b2 # Esc b3 # r \<Rightarrow>
             (if utf8_valid4 b b1 b2 b3
              then map_option (\<lambda>s. char_of b # char_of b1 # char_of b2 # char_of b3 # s)
                     (utf8_units r)
              else None)
         | _ \<Rightarrow> None)
      else None)"

definition decodeURIComponent :: "string \<Rightarrow> string option" where
  "decodeURIComponent s = (case unescape s of None \<Rightarrow> None | Some us \<Rightarrow> utf8_units us)"

subsection \<open>encodeURIComponent\<close>

text \<open>
  \<open>encodeURIComponent\<close> keeps the unreserved characters
  \<open>A-Z a-z 0-9 - _ . ! ~ * ' ( )\<close> and writes every other code point as the
  escapes of its UTF-8 bytes, in upper-case hexadecimal. (It throws on a lone surrogate,
  which no UTF-8 string holds.)
\<close>

definition uriUnreserved :: "char \<Rightarrow> bool" where
  "uriUnreserved c = (let n = (of_char c :: nat) in
     (65 \<le> n \<and> n \<le> 90) \<or> (97 \<le> n \<and> n \<le> 122) \<or> (48 \<le> n \<and> n \<le> 57) \<or>
     n \<in> {45, 95, 46, 33, 126, 42, 39, 40, 41})"

definition hexdigit :: "nat \<Rightarrow> char" where
  "hexdigit n = (if n < 10 then char_of (48 + n) else char_of (55 + n))"

definition encode_char :: "char \<Rightarrow> string" where
  "encode_char c =
     (if uriUnreserved c then [c]
      else [CHR ''%'', hexdigit ((of_char c :: nat) div 16), hexdigit ((of_char c :: nat) mod 16)])"

definition encodeURIComponent :: "string \<Rightarrow> string" where
  "encodeURIComponent s = concat (map encode_char s)"

section \<open>Node's \<open>path\<close> module (POSIX)\<close>

text \<open>
  The server runs with \<open>path.sep = "/"\<close>. \<open>path.resolve\<close> walks its arguments from
  the right, skipping empty ones, until the accumulated path is absolute; when no
  argument is absolute it prepends the working directory. The result is normalised:
  empty and \<open>.\<close> segments vanish, \<open>..\<close> removes the segment before it, and above
  the root of an absolute path \<open>..\<close> is dropped.
\<close>

definition path_sep :: string where
  "path_sep = ''/''"

fun split_on :: "char \<Rightarrow> string \<Rightarrow> string list" where
  "split_on d [] = [[]]"
| "split_on d (c # cs) =
     (if c = d then [] # split_on d cs
      else (case split_on d cs of [] \<Rightarrow> [[c]] | s # ss \<Rightarrow> (c # s) # ss))"

fun join_with :: "string \<Rightarrow> string list \<Rightarrow> string" where
  "join_with sep [] = []"
| "join_with sep [s] = s"
| "join_with sep (s # t # ss) = s @ sep @ join_with sep (t # ss)"

definition norm_step :: "bool \<Rightarrow> string list \<Rightarrow> string \<Rightarrow> string list" where
  "norm_step allowAboveRoot res seg =
     (if seg = [] \<or> seg = ''.'' then res
      else if seg = ''..'' then
        (if res \<noteq> [] \<and> last res \<noteq> ''..'' then butlast res
         else if allowAboveRoot then res @ [''..'']
         else res)
      else res @ [seg])"

definition normalizeString :: "string \<Rightarrow> bool \<Rightarrow> string" where
  "normalizeString path allowAboveRoot =
     join_with ''/'' (foldl (norm_step allowAboveRoot) [] (split_on CHR ''/'' path))"

text \<open>The arguments come last first; the working directory is the last resort.\<close>

fun resolve_args :: "string list \<Rightarrow> string \<Rightarrow> string \<times> bool" where
  "resolve_args [] resolvedPath = (resolvedPath, False)"
| "resolve_args (p # ps) resolvedPath =
     (if p = [] then resolve_args ps resolvedPath
      else if hd p = CHR ''/'' then (p @ ''/'' @ resolvedPath, True)
      else resolve_args ps (p @ ''/'' @ resolvedPath))"

definition path_resolve :: "string \<Rightarrow> string list \<Rightarrow> string" where
  "path_resolve cwd args =
     (case resolve_args (rev args @ [cwd]) [] of
        (resolvedPath, resolvedAbsolute) \<Rightarrow>
          (let n = normalizeString resolvedPath (\<not> resolvedAbsolute) in
           if resolvedAbsolute then CHR ''/'' # n
           else if n \<noteq> [] then n else ''.''))"

definition path_normalize :: "string \<Rightarrow> string" where
  "path_normalize p =
     (if p = [] then ''.''
      else
        (let isAbsolute = (hd p = CHR ''/'');
             trailingSeparator = (last p = CHR ''/'');
             n = normalizeString p (\<not> isAbsolute)
         in if n = [] then (if isAbsolute then ''/'' else if trailingSeparator then ''./'' else ''.'')
            else (if isAbsolute then ''/'' else []) @ n @ (if trailingSeparator then ''/'' else [])))"

definition path_join :: "string list \<Rightarrow> string" where
  "path_join args =
     (let joined = join_with ''/'' (filter (\<lambda>a. a \<noteq> []) args)
      in if joined = [] then ''.'' else path_normalize joined)"

section \<open>Path resolution\<close>

text \<open>
  \<open>resolvePathSafe\<close> of the sectioned server: a decoding failure is caught and gives
  \<open>null\<close>. The working directory is the only thing \<open>path.resolve\<close> reads from the
  process; it is the first argument here.
\<close>

definition resolvePathSafe :: "string \<Rightarrow> string \<Rightarrow> string \<Rightarrow> string option" where
  "resolvePathSafe cwd sectionRoot sectionRelPath =
     (case decodeURIComponent (orElse sectionRelPath ''/'') of
        None \<Rightarrow> None
      | Some decoded \<Rightarrow>
          (let absp = path_resolve cwd [sectionRoot, ''.'' @ decoded];
               rootNorm = (if endsWith sectionRoot path_sep then sectionRoot
                           else sectionRoot @ path_sep)
           in if \<not> startsWith absp rootNorm \<and> absp \<noteq> sectionRoot then None else Some absp))"

text \<open>What a JavaScript function of the server can throw.\<close>

datatype fs_errno = ENOENT | EACCES | ENOTDIR | EIO

datatype js_error = URIError | TypeError | FsError fs_errno

text \<open>
  \<open>resolvePathSafe\<close> of the single-root \<open>server.js\<close>: the same check, but the
  URIError of \<open>decodeURIComponent\<close> is not caught and leaves the function.
\<close>

definition resolvePathSafe_server :: "string \<Rightarrow> string \<Rightarrow> string \<Rightarrow> js_error + string option" where
  "resolvePathSafe_server cwd root urlPath =
     (case decodeURIComponent (orElse urlPath ''/'') of
        None \<Rightarrow> Inl URIError
      | Some decoded \<Rightarrow>
          (let absp = path_resolve cwd [root, ''.'' @ decoded];
               rootNorm = (if endsWith root path_sep then root else root @ path_sep)
           in if \<not> startsWith absp rootNorm \<and> absp \<noteq> root then Inr None else Inr (Some absp)))"

section \<open>The host: process, filesystem, collation\<close>

text \<open>
  What the server reads from its environment: the working directory and
  \<open>__dirname\<close>, the two filesystem calls it makes (\<open>fs.lstat\<close> and
  \<open>fs.readdir\<close> with \<open>withFileTypes\<close>, each returning a value or failing with an
  error code) and the French collation behind \<open>localeCompare(_, 'fr')\<close>.
\<close>

record stats =
  st_isDirectory :: bool
  st_size :: nat
  st_mtime :: nat

record dirent =
  d_name :: string
  d_isDirectory :: bool
  d_isFile :: bool

record host =
  cwd :: string
  dirname :: string
  lstat :: "string \<Rightarrow> fs_errno + stats"
  readdir :: "string \<Rightarrow> fs_errno + dirent list"
  localeCompare :: "string \<Rightarrow> string \<Rightarrow> int"

text \<open>Every filesystem access a handler makes is recorded, in order.\<close>

datatype fs_call = Lstat string | Readdir string | SendFile string

section \<open>Configuration\<close>

definition ROOT :: "host \<Rightarrow> string" where
  "ROOT h = path_resolve (cwd h) [dirname h, ''files'']"

text \<open>\<open>SECTIONS\<close> in the order of its keys: \<open>/docs\<close> is in the literal, \<open>/games\<close> is added after.\<close>

definition SECTIONS :: "host \<Rightarrow> (string \<times> string) list" where
  "SECTIONS h =
     [(''/docs'', path_join [ROOT h, ''docs'']),
      (''/games'', path_join [ROOT h, ''games''])]"

record bucket =
  slug :: string
  dir :: string
  mode :: string

definition GAMES_BUCKETS :: "host \<Rightarrow> bucket list" where
  "GAMES_BUCKETS h =
     [\<lparr>slug = ''solo'', dir = path_join [ROOT h, ''games'', ''solo''], mode = ''solo''\<rparr>,
      \<lparr>slug = ''multi'', dir = path_join [ROOT h, ''games'', ''multi''], mode = ''coop''\<rparr>]"

section \<open>Section matching and the games filter\<close>

fun matchSection_keys :: "string list \<Rightarrow> string \<Rightarrow> string option" where
  "matchSection_keys [] urlPath = None"
| "matchSection_keys (key # keys) urlPath =
     (if urlPath = key \<or> startsWith urlPath (key @ ''/'') \<or> startsWith urlPath (key @ ''%2F'')
      then Some key
      else matchSection_keys keys urlPath)"

definition matchSection :: "host \<Rightarrow> string \<Rightarrow> string option" where
  "matchSection h urlPath = matchSection_keys (map fst (SECTIONS h)) urlPath"

text \<open>\<open>s.replace(/\/+$/, '')\<close>: the trailing slashes are removed.\<close>

definition strip_trailing_slashes :: "string \<Rightarrow> string" where
  "strip_trailing_slashes s = rev (dropWhile (\<lambda>c. c = CHR ''/'') (rev s))"

definition isAllowedGamesRel :: "string \<Rightarrow> bool" where
  "isAllowedGamesRel rel =
     (let clean = strip_trailing_slashes (orElse rel ''/'')
      in clean = ''/'' \<or>
         clean = [] \<or>
         clean = ''/solo'' \<or> startsWith clean ''/solo/'' \<or>
         clean = ''/multi'' \<or> startsWith clean ''/multi/'')"

definition inferModeFromRel :: "string \<Rightarrow> string option" where
  "inferModeFromRel rel =
     (if rel = [] then None
      else if rel = ''/solo'' \<or> startsWith rel ''/solo/'' then Some ''solo''
      else if rel = ''/multi'' \<or> startsWith rel ''/multi/'' then Some ''coop''
      else None)"

section \<open>Rows and sorting\<close>

record row =
  r_name :: string
  r_href :: string
  r_isDir :: bool
  r_size :: "nat option"
  r_mtime :: nat
  r_mode :: "string option"

text \<open>
  \<open>Array.prototype.sort\<close> is stable; with the comparator \<open>cmp\<close> an element stays
  before another when \<open>cmp\<close> does not return a positive number.
\<close>

fun insert_by :: "('a \<Rightarrow> 'a \<Rightarrow> int) \<Rightarrow> 'a \<Rightarrow> 'a list \<Rightarrow> 'a list" where
  "insert_by cmp x [] = [x]"
| "insert_by cmp x (y # ys) = (if cmp x y \<le> 0 then x # y # ys else y # insert_by cmp x ys)"

definition array_sort :: "('a \<Rightarrow> 'a \<Rightarrow> int) \<Rightarrow> 'a list \<Rightarrow> 'a list" where
  "array_sort cmp xs = foldr (insert_by cmp) xs []"

text \<open>\<open>(b.isDir - a.isDir) || a.name.localeCompare(b.name, 'fr')\<close>\<close>

definition bool_num :: "bool \<Rightarrow> int" where
  "bool_num b = (if b then 1 else 0)"

definition plain_cmp :: "host \<Rightarrow> row \<Rightarrow> row \<Rightarrow> int" where
  "plain_cmp h a b =
     (let d = bool_num (r_isDir b) - bool_num (r_isDir a)
      in if d \<noteq> 0 then d else localeCompare h (r_name a) (r_name b))"

definition union_cmp :: "host \<Rightarrow> row \<Rightarrow> row \<Rightarrow> int" where
  "union_cmp h a b = localeCompare h (r_name a) (r_name b)"

text \<open>The href of a child: the request path with a trailing slash, then the encoded name.\<close>

definition row_href :: "string \<Rightarrow> string \<Rightarrow> bool \<Rightarrow> string" where
  "row_href reqPath name isDir =
     (let base = (if endsWith reqPath ''/'' then reqPath else reqPath @ ''/'')
      in base @ encodeURIComponent name @ (if isDir then ''/'' else []))"

section \<open>Responses\<close>

text \<open>
  What \<open>renderTableHtml\<close> receives, without the breadcrumb and heading markup. What a
  middleware does: answer with a status and a text, answer with a listing page or with
  the home page, hand a file to \<open>res.sendFile\<close> as a download, call \<open>next()\<close> or
  call \<open>next(err)\<close>. What Express does with the file it is handed (streaming, its
  refusal of dot files) is Express's own and ends the model at \<open>Download\<close>.
\<close>

record page =
  p_title :: string
  p_rows :: "row list"
  p_showMode :: bool
  p_parentLink :: bool

datatype outcome =
    Send nat string
  | SendHtml page
  | SendHome
  | Download string
  | Next
  | NextErr js_error
  | ExpressNotFound

section \<open>The sectioned server\<close>

subsection \<open>Direct download\<close>

definition download_handler :: "host \<Rightarrow> string \<Rightarrow> outcome \<times> fs_call list" where
  "download_handler h reqPath =
     (case matchSection h reqPath of
        None \<Rightarrow> (Next, [])
      | Some sectionKey \<Rightarrow>
          (case map_of (SECTIONS h) sectionKey of
             None \<Rightarrow> (NextErr TypeError, [])
           | Some sectionRoot \<Rightarrow>
               (let rel = orElse (slice_from reqPath (length sectionKey)) ''/''
                in if sectionKey = ''/games'' \<and> \<not> isAllowedGamesRel rel then (Next, [])
                   else
                     (case resolvePathSafe (cwd h) sectionRoot rel of
                        None \<Rightarrow> (Send 400 ''Chemin invalide'', [])
                      | Some absp \<Rightarrow>
                          (case lstat h absp of
                             Inl _ \<Rightarrow> (Next, [Lstat absp])
                           | Inr st \<Rightarrow>
                               if st_isDirectory st then (Next, [Lstat absp])
                               else (Download absp, [Lstat absp, SendFile absp]))))))"

subsection \<open>The union view of \<open>/games\<close>\<close>

definition bucket_row :: "bucket \<Rightarrow> dirent \<Rightarrow> stats \<Rightarrow> row" where
  "bucket_row b e s =
     \<lparr>r_name = d_name e,
      r_href = ''/games/'' @ slug b @ ''/'' @ encodeURIComponent (d_name e),
      r_isDir = False,
      r_size = Some (st_size s),
      r_mtime = st_mtime s,
      r_mode = Some (mode b)\<rparr>"

fun bucket_rows :: "host \<Rightarrow> bucket \<Rightarrow> dirent list \<Rightarrow> row list \<times> fs_call list" where
  "bucket_rows h b [] = ([], [])"
| "bucket_rows h b (e # es) =
     (if \<not> d_isFile e then bucket_rows h b es
      else
        (let full = path_join [dir b, d_name e]
         in case bucket_rows h b es of
              (rows, tr) \<Rightarrow>
                (case lstat h full of
                   Inl _ \<Rightarrow> (rows, Lstat full # tr)
                 | Inr s \<Rightarrow> (bucket_row b e s # rows, Lstat full # tr))))"

fun union_rows :: "host \<Rightarrow> bucket list \<Rightarrow> row list \<times> fs_call list" where
  "union_rows h [] = ([], [])"
| "union_rows h (b # bs) =
     (case union_rows h bs of
        (rows2, tr2) \<Rightarrow>
          (case readdir h (dir b) of
             Inl _ \<Rightarrow> (rows2, Readdir (dir b) # tr2)
           | Inr list \<Rightarrow>
               (case bucket_rows h b list of
                  (rows1, tr1) \<Rightarrow> (rows1 @ rows2, Readdir (dir b) # tr1 @ tr2))))"

subsection \<open>The plain listing\<close>

definition child_row :: "string \<Rightarrow> string \<Rightarrow> string \<Rightarrow> dirent \<Rightarrow> stats \<Rightarrow> row" where
  "child_row sectionKey rel reqPath e s =
     (let isDir = d_isDirectory e;
          name = d_name e @ (if isDir then ''/'' else []);
          href = row_href reqPath (d_name e) isDir;
          mode = (if sectionKey = ''/games'' then inferModeFromRel rel else None)
      in \<lparr>r_name = name,
          r_href = href,
          r_isDir = isDir,
          r_size = (if isDir then None else Some (st_size s)),
          r_mtime = st_mtime s,
          r_mode = (if isDir then None else mode)\<rparr>)"

fun child_rows ::
  "host \<Rightarrow> string \<Rightarrow> string \<Rightarrow> string \<Rightarrow> string \<Rightarrow> dirent list \<Rightarrow> row list \<times> fs_call list" where
  "child_rows h sectionKey rel reqPath absp [] = ([], [])"
| "child_rows h sectionKey rel reqPath absp (e # es) =
     (let full = path_join [absp, d_name e]
      in case child_rows h sectionKey rel reqPath absp es of
           (rows, tr) \<Rightarrow>
             (case lstat h full of
                Inl _ \<Rightarrow> (rows, Lstat full # tr)
              | Inr s \<Rightarrow> (child_row sectionKey rel reqPath e s # rows, Lstat full # tr)))"

definition safeDecodePath :: "string \<Rightarrow> string" where
  "safeDecodePath p = (case decodeURIComponent p of None \<Rightarrow> p | Some d \<Rightarrow> d)"

text \<open>\<open>parts[0]\<close> inside a template literal; of an empty array it reads \<open>undefined\<close>.\<close>

definition first_part :: "string \<Rightarrow> string" where
  "first_part decoded =
     (case filter (\<lambda>p. p \<noteq> []) (split_on CHR ''/'' decoded) of
        [] \<Rightarrow> ''undefined''
      | p # _ \<Rightarrow> p)"

text \<open>The special case of the index middleware: the aggregated view of the two buckets.\<close>

definition union_view :: "host \<Rightarrow> outcome \<times> fs_call list" where
  "union_view h =
     (case union_rows h (GAMES_BUCKETS h) of
        (rows, tr) \<Rightarrow>
          (SendHtml \<lparr>p_title = ''/games'',
                     p_rows = array_sort (union_cmp h) rows,
                     p_showMode = True,
                     p_parentLink = False\<rparr>, tr))"

text \<open>The standard behaviour of the index middleware: the listing of an existing directory.\<close>

definition plain_view ::
  "host \<Rightarrow> string \<Rightarrow> string \<Rightarrow> string \<Rightarrow> string \<Rightarrow> outcome \<times> fs_call list" where
  "plain_view h sectionKey sectionRoot rel reqPath =
     (if sectionKey = ''/games'' \<and> \<not> isAllowedGamesRel rel then (Send 404 ''Introuvable'', [])
      else
        (case resolvePathSafe (cwd h) sectionRoot rel of
           None \<Rightarrow> (Send 400 ''Chemin invalide'', [])
         | Some absp \<Rightarrow>
             (case lstat h absp of
                Inl _ \<Rightarrow> (Send 404 ''Introuvable'', [Lstat absp])
              | Inr st \<Rightarrow>
                  if \<not> st_isDirectory st then (Next, [Lstat absp])
                  else
                    (case readdir h absp of
                       Inl err \<Rightarrow> (NextErr (FsError err), [Lstat absp, Readdir absp])
                     | Inr list \<Rightarrow>
                         (case child_rows h sectionKey rel reqPath absp list of
                            (rows, tr) \<Rightarrow>
                              (let decoded = safeDecodePath (orElse reqPath ''/'');
                                   p0 = first_part decoded
                               in (SendHtml
                                     \<lparr>p_title = decoded,
                                      p_rows = array_sort (plain_cmp h) rows,
                                      p_showMode = True,
                                      p_parentLink =
                                        (decoded \<noteq> ''/'' @ p0 @ ''/'' \<and> decoded \<noteq> ''/'' @ p0)\<rparr>,
                                   Lstat absp # Readdir absp # tr)))))))"

definition section_index :: "host \<Rightarrow> string \<Rightarrow> outcome \<times> fs_call list" where
  "section_index h reqPath =
     (case matchSection h reqPath of
        None \<Rightarrow> (Next, [])
      | Some sectionKey \<Rightarrow>
          (case map_of (SECTIONS h) sectionKey of
             None \<Rightarrow> (NextErr TypeError, [])
           | Some sectionRoot \<Rightarrow>
               (let rel = orElse (slice_from reqPath (length sectionKey)) ''/''
                in if sectionKey = ''/games'' \<and> (rel = ''/'' \<or> rel = []) then union_view h
                   else plain_view h sectionKey sectionRoot rel reqPath)))"

subsection \<open>The middleware chain\<close>

text \<open>
  A GET request that passed the authentication and rate-limit middlewares: the home
  route, the download middleware, the index middleware; \<open>next(err)\<close> reaches the
  error middleware, and a request no middleware answers is left to Express.
\<close>

definition error_middleware :: "js_error \<Rightarrow> outcome" where
  "error_middleware err = Send 500 ''Erreur interne. Consulte la console du serveur.''"

text \<open>
  \<open>app.get('/')\<close>: with Express's default, non-strict routing the route \<open>/\<close> also
  takes the path with one more trailing slash.
\<close>

definition home_route :: "string \<Rightarrow> bool" where
  "home_route reqPath = (reqPath = ''/'' \<or> reqPath = ''//'')"

definition app :: "host \<Rightarrow> string \<Rightarrow> outcome \<times> fs_call list" where
  "app h reqPath =
     (if home_route reqPath then (SendHome, [])
      else
        (case download_handler h reqPath of
           (Next, tr1) \<Rightarrow>
             (case section_index h reqPath of
                (Next, tr2) \<Rightarrow> (ExpressNotFound, tr1 @ tr2)
              | (NextErr err, tr2) \<Rightarrow> (error_middleware err, tr1 @ tr2)
              | (out, tr2) \<Rightarrow> (out, tr1 @ tr2))
         | (NextErr err, tr1) \<Rightarrow> (error_middleware err, tr1)
         | (out, tr1) \<Rightarrow> (out, tr1)))"

section \<open>The single-root server (\<open>server.js\<close>)\<close>

definition download_server :: "host \<Rightarrow> string \<Rightarrow> outcome \<times> fs_call list" where
  "download_server h reqPath =
     (case resolvePathSafe_server (cwd h) (ROOT h) reqPath of
        Inl err \<Rightarrow> (NextErr err, [])
      | Inr None \<Rightarrow> (Send 400 ''Chemin invalide'', [])
      | Inr (Some absp) \<Rightarrow>
          (case lstat h absp of
             Inl _ \<Rightarrow> (Next, [Lstat absp])
           | Inr st \<Rightarrow>
               if st_isDirectory st then (Next, [Lstat absp])
               else (Download absp, [Lstat absp, SendFile absp])))"

text \<open>The child loop of \<open>server.js\<close>: \<open>fs.lstat\<close> of a child is awaited outside any \<open>try\<close>.\<close>

definition server_row :: "string \<Rightarrow> dirent \<Rightarrow> stats \<Rightarrow> row" where
  "server_row reqPath e s =
     (let isDir = d_isDirectory e;
          name = d_name e @ (if isDir then ''/'' else []);
          href = row_href reqPath (d_name e) isDir
      in \<lparr>r_name = name,
          r_href = href,
          r_isDir = isDir,
          r_size = (if isDir then None else Some (st_size s)),
          r_mtime = st_mtime s,
          r_mode = None\<rparr>)"

fun child_rows_server ::
  "host \<Rightarrow> string \<Rightarrow> string \<Rightarrow> dirent list \<Rightarrow> (js_error + row list) \<times> fs_call list" where
  "child_rows_server h reqPath absp [] = (Inr [], [])"
| "child_rows_server h reqPath absp (e # es) =
     (let full = path_join [absp, d_name e]
      in case lstat h full of
           Inl err \<Rightarrow> (Inl (FsError err), [Lstat full])
         | Inr s \<Rightarrow>
             (case child_rows_server h reqPath absp es of
                (Inl err, tr) \<Rightarrow> (Inl err, Lstat full # tr)
              | (Inr rows, tr) \<Rightarrow> (Inr (server_row reqPath e s # rows), Lstat full # tr)))"

datatype http_method = GET | HEAD | POST | OtherMethod

definition index_server :: "host \<Rightarrow> http_method \<Rightarrow> string \<Rightarrow> outcome \<times> fs_call list" where
  "index_server h method reqPath =
     (if method \<noteq> GET \<and> method \<noteq> HEAD then (Next, [])
      else
        (case resolvePathSafe_server (cwd h) (ROOT h) reqPath of
           Inl err \<Rightarrow> (NextErr err, [])
         | Inr None \<Rightarrow> (Send 400 ''Chemin invalide'', [])
         | Inr (Some absp) \<Rightarrow>
             (case lstat h absp of
                Inl _ \<Rightarrow> (Send 404 ''Introuvable'', [Lstat absp])
              | Inr st \<Rightarrow>
                  if \<not> st_isDirectory st then (Next, [Lstat absp])
                  else
                    (case readdir h absp of
                       Inl err \<Rightarrow> (NextErr (FsError err), [Lstat absp, Readdir absp])
                     | Inr list \<Rightarrow>
                         (case child_rows_server h reqPath absp list of
                            (Inl err, tr) \<Rightarrow> (NextErr err, Lstat absp # Readdir absp # tr)
                          | (Inr rows, tr) \<Rightarrow>
                              (case decodeURIComponent (orElse reqPath ''/'') of
                                 None \<Rightarrow> (NextErr URIError, Lstat absp # Readdir absp # tr)
                               | Some decoded \<Rightarrow>
                                   (SendHtml
                                      \<lparr>p_title = ''Index '' @ orElse decoded ''/'',
                                       p_rows = array_sort (plain_cmp h) rows,
                                       p_showMode = False,
                                       p_parentLink = (decoded \<noteq> ''/'' \<and> decoded \<noteq> [])\<rparr>,
                                    Lstat absp # Readdir absp # tr)))))))"

definition app_server :: "host \<Rightarrow> http_method \<Rightarrow> string \<Rightarrow> outcome \<times> fs_call list" where
  "app_server h method reqPath =
     (case download_server h reqPath of
        (Next, tr1) \<Rightarrow>
          (case index_server h method reqPath of
             (Next, tr2) \<Rightarrow> (ExpressNotFound, tr1 @ tr2)
           | (NextErr err, tr2) \<Rightarrow> (error_middleware err, tr1 @ tr2)
           | (out, tr2) \<Rightarrow> (out, tr1 @ tr2))
      | (NextErr err, tr1) \<Rightarrow> (error_middleware err, tr1)
      | (out, tr1) \<Rightarrow> (out, tr1))"

section \<open>A sample host\<close>

text \<open>
  A host on which the properties are exercised: the server lives in \<open>/srv\<close>, so the
  root is \<open>/srv/files\<close>. \<open>games\<close> holds the two buckets and a sibling directory
  \<open>other\<close>; \<open>docs\<close> holds a file \<open>b.txt\<close>, a directory \<open>a\<close> and an entry
  \<open>broken\<close> that cannot be stat'ed; \<open>docs/secret\<close> exists but may not be stat'ed,
  and the directory \<open>docs/locked\<close> may not be read. \<open>docs/a\<close> holds the directory
  \<open>a b&c\<close>, which holds a file \<open>b.txt\<close> and a directory \<open>a\<close>.
  The collation is a stand-in for the French one: it compares byte by byte.
\<close>

fun byte_compare :: "string \<Rightarrow> string \<Rightarrow> int" where
  "byte_compare [] [] = 0"
| "byte_compare [] (y # ys) = - 1"
| "byte_compare (x # xs) [] = 1"
| "byte_compare (x # xs) (y # ys) =
     (if (of_char x :: nat) < of_char y then - 1
      else if (of_char y :: nat) < of_char x then 1
      else byte_compare xs ys)"

definition sample_dir :: stats where
  "sample_dir = \<lparr>st_isDirectory = True, st_size = 64, st_mtime = 7\<rparr>"

definition sample_file :: "nat \<Rightarrow> stats" where
  "sample_file n = \<lparr>st_isDirectory = False, st_size = n, st_mtime = 7\<rparr>"

definition dir_entry :: "string \<Rightarrow> dirent" where
  "dir_entry n = \<lparr>d_name = n, d_isDirectory = True, d_isFile = False\<rparr>"

definition file_entry :: "string \<Rightarrow> dirent" where
  "file_entry n = \<lparr>d_name = n, d_isDirectory = False, d_isFile = True\<rparr>"

definition sample_lstat :: "string \<Rightarrow> fs_errno + stats" where
  "sample_lstat p =
     (if p \<in> {''/srv/files/games'', ''/srv/files/games/solo'', ''/srv/files/games/multi'',
               ''/srv/files/games/other'', ''/srv/files/docs'', ''/srv/files/docs/a'',
               ''/srv/files/docs/a/a b&c'', ''/srv/files/docs/a/a b&c/a'',
               ''/srv/files/docs/locked''}
      then Inr sample_dir
      else if p \<in> {''/srv/files/games/solo/a.zip'', ''/srv/files/games/solo/b.zip'',
                    ''/srv/files/games/multi/c.zip'', ''/srv/files/docs/b.txt'',
                    ''/srv/files/docs/a/a b&c/b.txt''}
      then Inr (sample_file 10)
      else if p = ''/srv/files/docs/secret'' then Inl EACCES
      else Inl ENOENT)"

definition sample_readdir :: "string \<Rightarrow> fs_errno + dirent list" where
  "sample_readdir p =
     (if p = ''/srv/files/games''
      then Inr [dir_entry ''solo'', dir_entry ''other'', dir_entry ''multi'']
      else if p = ''/srv/files/games/solo'' then Inr [file_entry ''b.zip'', file_entry ''a.zip'']
      else if p = ''/srv/files/games/multi'' then Inr [file_entry ''c.zip'']
      else if p = ''/srv/files/games/other'' then Inr []
      else if p = ''/srv/files/docs''
      then Inr [file_entry ''b.txt'', file_entry ''broken'', dir_entry ''a'']
      else if p = ''/srv/files/docs/a'' then Inr [dir_entry ''a b&c'']
      else if p = ''/srv/files/docs/a/a b&c'' then Inr [file_entry ''b.txt'', dir_entry ''a'']
      else if p = ''/srv/files/docs/a/a b&c/a'' then Inr []
      else if p = ''/srv/files/docs/secret'' \<or> p = ''/srv/files/docs/locked'' then Inl EACCES
      else Inl ENOENT)"

definition sample_host :: host where
  "sample_host =
     \<lparr>cwd = ''/'', dirname = ''/srv'', lstat = sample_lstat, readdir = sample_readdir,
      localeCompare = byte_compare\<rparr>"

text \<open>The same host when the games directory itself may not be stat'ed.\<close>

definition sample_host_games_denied :: host where
  "sample_host_games_denied =
     \<lparr>cwd = ''/'', dirname = ''/srv'',
      lstat = (\<lambda>p. if p = ''/srv/files/games'' then Inl EACCES else sample_lstat p),
      readdir = sample_readdir, localeCompare = byte_compare\<rparr>"

section \<open>Predicates used to state the properties\<close>

text \<open>
  A segment of a resolved path: not empty, without a separator, and neither \<open>.\<close>
  nor \<open>..\<close>. A resolved path is \<open>/\<close> followed by such segments, joined by single
  separators.
\<close>

definition plain_seg :: "string \<Rightarrow> bool" where
  "plain_seg seg = (seg \<noteq> [] \<and> CHR ''/'' \<notin> set seg)"

definition normal_seg :: "string \<Rightarrow> bool" where
  "normal_seg seg = (plain_seg seg \<and> seg \<noteq> ''.'' \<and> seg \<noteq> ''..'')"

definition rooted :: "string list \<Rightarrow> string" where
  "rooted segs = CHR ''/'' # join_with ''/'' segs"

definition isAbsolute :: "string \<Rightarrow> bool" where
  "isAbsolute p = (p \<noteq> [] \<and> hd p = CHR ''/'')"

definition is_resolved :: "string \<Rightarrow> bool" where
  "is_resolved p =
     (case p of
        [] \<Rightarrow> False
      | c # r \<Rightarrow> c = CHR ''/'' \<and> (r = [] \<or> list_all normal_seg (split_on CHR ''/'' r)))"

text \<open>
  The words of the specification for the access filter: the first non-empty segment of
  a relative path, and a path being permitted when it has none (the section root) or
  when that segment is a bucket slug.
\<close>

definition first_nonempty_segment :: "string \<Rightarrow> string option" where
  "first_nonempty_segment rel =
     (case filter (\<lambda>s. s \<noteq> []) (split_on CHR ''/'' rel) of [] \<Rightarrow> None | s # _ \<Rightarrow> Some s)"

definition isPermitted_spec :: "string \<Rightarrow> bool" where
  "isPermitted_spec rel =
     (first_nonempty_segment rel = None \<or>
      first_nonempty_segment rel = Some ''solo'' \<or>
      first_nonempty_segment rel = Some ''multi'')"



text \<open>
  The rows of the page a middleware sent, when it sent one. Rows in the order of a
  listing: the directories first, then the files, each group in the order of the
  collation on the row names.
\<close>

definition page_rows :: "outcome \<Rightarrow> row list option" where
  "page_rows out = (case out of SendHtml p \<Rightarrow> Some (p_rows p) | _ \<Rightarrow> None)"

definition listing_ordered :: "host \<Rightarrow> row list \<Rightarrow> bool" where
  "listing_ordered h rows =
     (rows = filter r_isDir rows @ filter (\<lambda>r. \<not> r_isDir r) rows \<and>
      sorted_wrt (\<lambda>a b. localeCompare h (r_name a) (r_name b) \<le> 0) (filter r_isDir rows) \<and>
      sorted_wrt (\<lambda>a b. localeCompare h (r_name a) (r_name b) \<le> 0)
        (filter (\<lambda>r. \<not> r_isDir r) rows))"

text \<open>
  A comparator that \<open>Array.prototype.sort\<close> can sort by: any two elements are
  comparable and the order is transitive.
\<close>

definition consistent_comparator :: "('a \<Rightarrow> 'a \<Rightarrow> int) \<Rightarrow> bool" where
  "consistent_comparator cmp =
     ((\<forall>a b. cmp a b \<le> 0 \<or> cmp b a \<le> 0) \<and>
      (\<forall>a b c. cmp a b \<le> 0 \<and> cmp b c \<le> 0 \<longrightarrow> cmp a c \<le> 0))"

section \<open>Segments and normalisation\<close>

lemma split_on_not_Nil: "split_on d s \<noteq> []"
  by (induction s) (auto split: list.splits)

lemma split_on_no_sep: "seg \<in> set (split_on d s) \<Longrightarrow> d \<notin> set seg"
  by (induction s arbitrary: seg) (auto split: list.splits if_splits)

lemma norm_step_plain:
  "list_all plain_seg res \<Longrightarrow> CHR ''/'' \<notin> set seg \<Longrightarrow> list_all plain_seg (norm_step a res seg)"
  by (auto simp: norm_step_def plain_seg_def list_all_iff dest: in_set_butlastD)

lemma norm_step_normal:
  "list_all normal_seg res \<Longrightarrow> CHR ''/'' \<notin> set seg \<Longrightarrow> list_all normal_seg (norm_step False res seg)"
  by (auto simp: norm_step_def normal_seg_def plain_seg_def list_all_iff dest: in_set_butlastD)

lemma foldl_norm_plain:
  "list_all plain_seg res \<Longrightarrow> \<forall>seg\<in>set segs. CHR ''/'' \<notin> set seg \<Longrightarrow>
   list_all plain_seg (foldl (norm_step a) res segs)"
  by (induction segs arbitrary: res) (simp_all add: norm_step_plain)

lemma foldl_norm_normal:
  "list_all normal_seg res \<Longrightarrow> \<forall>seg\<in>set segs. CHR ''/'' \<notin> set seg \<Longrightarrow>
   list_all normal_seg (foldl (norm_step False) res segs)"
  by (induction segs arbitrary: res) (simp_all add: norm_step_normal)

lemma join_with_Nil_iff:
  "\<forall>s\<in>set segs. s \<noteq> [] \<Longrightarrow> join_with sep segs = [] \<longleftrightarrow> segs = []"
  by (induction sep segs rule: join_with.induct) auto

lemma join_with_last:
  "segs \<noteq> [] \<Longrightarrow> \<forall>s\<in>set segs. s \<noteq> [] \<Longrightarrow> last (join_with sep segs) = last (last segs)"
proof (induction sep segs rule: join_with.induct)
  case (3 sep s t ss)
  then have "join_with sep (t # ss) \<noteq> []"
    by (simp add: join_with_Nil_iff)
  with 3 show ?case by simp
qed simp_all

lemma normalizeString_last:
  "normalizeString p a = [] \<or> last (normalizeString p a) \<noteq> CHR ''/''"
proof -
  let ?segs = "foldl (norm_step a) [] (split_on CHR ''/'' p)"
  have pl: "list_all plain_seg ?segs"
    by (rule foldl_norm_plain) (simp_all add: split_on_no_sep)
  show ?thesis
  proof (cases "?segs = []")
    case True
    then show ?thesis by (simp add: normalizeString_def)
  next
    case False
    from pl have ne: "\<forall>s\<in>set ?segs. s \<noteq> []"
      by (auto simp: list_all_iff plain_seg_def)
    from False have "last ?segs \<in> set ?segs" by simp
    with pl have "plain_seg (last ?segs)" by (auto simp: list_all_iff)
    then have "last (last ?segs) \<noteq> CHR ''/''"
      by (metis plain_seg_def last_in_set)
    with False ne show ?thesis
      by (simp add: normalizeString_def join_with_last)
  qed
qed

lemma path_resolve_last:
  "path_resolve wd args = ''/'' \<or> (path_resolve wd args \<noteq> [] \<and> last (path_resolve wd args) \<noteq> CHR ''/'')"
proof -
  obtain rp ra where r: "resolve_args (rev args @ [wd]) [] = (rp, ra)"
    by (cases "resolve_args (rev args @ [wd]) []")
  from normalizeString_last [of rp "\<not> ra"] show ?thesis
    by (auto simp: path_resolve_def r Let_def)
qed

lemma split_on_plain: "d \<notin> set s \<Longrightarrow> split_on d s = [s]"
  by (induction s) auto

lemma split_on_append: "d \<notin> set s \<Longrightarrow> split_on d (s @ d # r) = s # split_on d r"
  by (induction s) auto

lemma split_on_join:
  "segs \<noteq> [] \<Longrightarrow> \<forall>s\<in>set segs. d \<notin> set s \<Longrightarrow> split_on d (join_with [d] segs) = segs"
  by (induction "[d]" segs rule: join_with.induct) (simp_all add: split_on_plain split_on_append)

lemma is_resolved_join:
  assumes "list_all normal_seg segs"
  shows "is_resolved (CHR ''/'' # join_with ''/'' segs)"
proof (cases "segs = []")
  case True
  then show ?thesis by (simp add: is_resolved_def)
next
  case False
  from assms have "\<forall>s\<in>set segs. CHR ''/'' \<notin> set s"
    by (auto simp: list_all_iff normal_seg_def plain_seg_def)
  with False have "split_on CHR ''/'' (join_with ''/'' segs) = segs"
    by (rule split_on_join)
  with assms show ?thesis by (simp add: is_resolved_def)
qed

lemma path_resolve_resolved:
  assumes "resolve_args (rev args @ [wd]) [] = (rp, True)"
  shows "is_resolved (path_resolve wd args)"
proof -
  have "list_all normal_seg (foldl (norm_step False) [] (split_on CHR ''/'' rp))"
    by (rule foldl_norm_normal) (simp_all add: split_on_no_sep)
  then show ?thesis
    using assms by (simp add: path_resolve_def normalizeString_def is_resolved_join)
qed

lemma resolve_args_cwd:
  "wd \<noteq> [] \<Longrightarrow> hd wd = CHR ''/'' \<Longrightarrow> snd (resolve_args (ps @ [wd]) acc)"
  by (induction ps arbitrary: acc) auto


subsection \<open>Resolved paths as segment lists\<close>

lemma norm_step_normal_seg: "normal_seg seg \<Longrightarrow> norm_step a res seg = res @ [seg]"
  by (auto simp: norm_step_def normal_seg_def plain_seg_def)

lemma foldl_norm_append:
  "list_all normal_seg segs \<Longrightarrow> foldl (norm_step a) res segs = res @ segs"
  by (induction segs arbitrary: res) (simp_all add: norm_step_normal_seg)

lemma split_on_sep_append: "split_on d (a @ d # b) = split_on d a @ split_on d b"
proof (induction a)
  case Nil
  have "split_on d b \<noteq> []" by (rule split_on_not_Nil)
  then show ?case by (cases "split_on d b") simp_all
next
  case (Cons c a)
  have "split_on d a \<noteq> []" by (rule split_on_not_Nil)
  with Cons show ?case by (cases "split_on d a") (simp_all)
qed

lemma norm_step_empty [simp]: "norm_step a res [] = res"
  by (simp add: norm_step_def)

lemma normal_no_sep: "list_all normal_seg segs \<Longrightarrow> \<forall>s\<in>set segs. CHR ''/'' \<notin> set s"
  by (auto simp: list_all_iff normal_seg_def plain_seg_def)

lemma segments_rooted:
  assumes "list_all normal_seg segs"
  shows "foldl (norm_step a) [] (split_on CHR ''/'' (rooted segs)) = segs"
proof (cases "segs = []")
  case True
  then show ?thesis by (simp add: rooted_def)
next
  case False
  with assms have "split_on CHR ''/'' (join_with ''/'' segs) = segs"
    by (intro split_on_join normal_no_sep)
  with assms show ?thesis
    using foldl_norm_append [of segs a "[]"] by (simp add: rooted_def)
qed

lemma path_resolve_rooted:
  assumes s: "list_all normal_seg segs" and x: "x \<noteq> []" "hd x \<noteq> CHR ''/''"
  shows "path_resolve wd [rooted segs, x] =
         rooted (foldl (norm_step False) segs (split_on CHR ''/'' (x @ ''/'')))"
proof -
  have ra: "resolve_args (rev [rooted segs, x] @ [wd]) [] = (rooted segs @ ''/'' @ x @ ''/'', True)"
    using x by (simp add: rooted_def)
  have "split_on CHR ''/'' (rooted segs @ ''/'' @ x @ ''/'') =
        split_on CHR ''/'' (rooted segs) @ split_on CHR ''/'' (x @ ''/'')"
    using split_on_sep_append [of "CHR ''/''" "rooted segs" "x @ ''/''"] by simp
  then have "foldl (norm_step False) [] (split_on CHR ''/'' (rooted segs @ ''/'' @ x @ ''/'')) =
        foldl (norm_step False) segs (split_on CHR ''/'' (x @ ''/''))"
    by (simp add: segments_rooted [OF s])
  then show ?thesis
    unfolding path_resolve_def ra by (simp add: normalizeString_def rooted_def)
qed



lemma rooted_not_Nil: "list_all normal_seg segs \<Longrightarrow> segs \<noteq> [] \<Longrightarrow> join_with ''/'' segs \<noteq> []"
  by (simp add: join_with_Nil_iff list_all_iff normal_seg_def plain_seg_def)

lemma path_join_rooted:
  assumes s: "list_all normal_seg segs" and n: "list_all normal_seg ns" "ns \<noteq> []"
  shows "path_join (rooted segs # ns) = rooted (segs @ ns)"
proof -
  have ne: "filter (\<lambda>a. a \<noteq> []) (rooted segs # ns) = rooted segs # ns"
    using n by (auto simp: rooted_def list_all_iff normal_seg_def plain_seg_def filter_id_conv)
  have j: "join_with ''/'' (rooted segs # ns) = rooted segs @ ''/'' @ join_with ''/'' ns"
    using n(2) by (cases ns) simp_all
  have sp: "split_on CHR ''/'' (join_with ''/'' ns) = ns"
    using n by (intro split_on_join normal_no_sep)
  have "split_on CHR ''/'' (rooted segs @ ''/'' @ join_with ''/'' ns) =
        split_on CHR ''/'' (rooted segs) @ ns"
    using split_on_sep_append [of "CHR ''/''" "rooted segs" "join_with ''/'' ns"] sp by simp
  then have f: "foldl (norm_step False) [] (split_on CHR ''/'' (rooted segs @ ''/'' @ join_with ''/'' ns))
        = segs @ ns"
    using n(1) by (simp add: segments_rooted [OF s] foldl_norm_append)
  have all: "list_all normal_seg (segs @ ns)" using s n by simp
  have nn: "join_with ''/'' (segs @ ns) \<noteq> []"
    using all n(2) by (intro rooted_not_Nil) simp_all
  have lastn: "last (join_with ''/'' ns) \<noteq> CHR ''/''"
  proof -
    have "\<forall>s\<in>set ns. s \<noteq> []" using n by (auto simp: list_all_iff normal_seg_def plain_seg_def)
    with n(2) have "last (join_with ''/'' ns) = last (last ns)" by (rule join_with_last)
    moreover have "normal_seg (last ns)" using n by (auto simp: list_all_iff)
    ultimately show ?thesis
      by (metis normal_seg_def plain_seg_def last_in_set)
  qed
  have jn: "join_with ''/'' ns \<noteq> []" using n by (intro rooted_not_Nil)
  show ?thesis
    unfolding path_join_def ne j
    using f nn lastn jn
    by (simp add: path_normalize_def normalizeString_def Let_def rooted_def)
qed

lemma ROOT_rooted:
  assumes "isAbsolute (dirname h)"
  shows "\<exists>segs. list_all normal_seg segs \<and> ROOT h = rooted (segs @ [''files''])"
proof -
  let ?dn = "dirname h"
  have ra: "resolve_args (rev [?dn, ''files''] @ [cwd h]) [] = (?dn @ ''/'' @ ''files/'', True)"
    using assms by (simp add: isAbsolute_def)
  have "split_on CHR ''/'' (?dn @ ''/'' @ ''files/'') = split_on CHR ''/'' ?dn @ [''files'', []]"
    using split_on_sep_append [of "CHR ''/''" ?dn "''files/''"] by simp
  then have f: "foldl (norm_step False) [] (split_on CHR ''/'' (?dn @ ''/'' @ ''files/'')) =
     foldl (norm_step False) [] (split_on CHR ''/'' ?dn) @ [''files'']"
    by (simp add: norm_step_normal_seg normal_seg_def plain_seg_def)
  have "list_all normal_seg (foldl (norm_step False) [] (split_on CHR ''/'' ?dn))"
    by (rule foldl_norm_normal) (simp_all add: split_on_no_sep)
  with f show ?thesis
    unfolding ROOT_def path_resolve_def ra
    by (auto simp: normalizeString_def rooted_def)
qed

lemma endsWith_single: "endsWith s [c] \<longleftrightarrow> s \<noteq> [] \<and> last s = c"
  by (cases s rule: rev_cases) (simp_all add: endsWith_def suffix_def)

lemma resolvePathSafe_Some:
  assumes "resolvePathSafe wd root p = Some absp"
  obtains decoded where "decodeURIComponent (orElse p ''/'') = Some decoded"
    and "absp = path_resolve wd [root, ''.'' @ decoded]"
    and "absp = root \<or> prefix (if endsWith root path_sep then root else root @ path_sep) absp"
  using assms
  by (auto simp: resolvePathSafe_def Let_def startsWith_def split: option.splits if_splits)

lemma resolvePathSafe_server_eq:
  "resolvePathSafe_server wd root p =
     (case decodeURIComponent (orElse p ''/'') of
        None \<Rightarrow> Inl URIError
      | Some _ \<Rightarrow> Inr (resolvePathSafe wd root p))"
  by (simp add: resolvePathSafe_server_def resolvePathSafe_def Let_def split: option.splits)

lemma confined_strict:
  assumes root: "root \<noteq> []" "\<not> endsWith root path_sep"
    and r: "resolvePathSafe wd root p = Some absp"
  shows "absp = root \<or> strict_prefix (root @ path_sep) absp"
proof -
  from r obtain decoded where a: "absp = path_resolve wd [root, ''.'' @ decoded]"
    and c: "absp = root \<or> prefix (if endsWith root path_sep then root else root @ path_sep) absp"
    by (rule resolvePathSafe_Some)
  have "absp \<noteq> root @ path_sep"
  proof
    assume e: "absp = root @ path_sep"
    then have "last absp = CHR ''/''" by (simp add: path_sep_def)
    with path_resolve_last [of wd "[root, ''.'' @ decoded]"] a have "absp = ''/''" by auto
    with e root show False by (simp add: path_sep_def)
  qed
  with c root show ?thesis by (auto simp: strict_prefix_def)
qed

lemma resolved_result:
  assumes wd: "wd \<noteq> []" "hd wd = CHR ''/''"
    and r: "resolvePathSafe wd root p = Some absp"
  shows "is_resolved absp"
proof -
  from r obtain decoded where a: "absp = path_resolve wd [root, ''.'' @ decoded]"
    by (rule resolvePathSafe_Some)
  obtain rp ra where ra: "resolve_args (rev [root, ''.'' @ decoded] @ [wd]) [] = (rp, ra)"
    by (cases "resolve_args (rev [root, ''.'' @ decoded] @ [wd]) []")
  from resolve_args_cwd [OF wd, of "rev [root, ''.'' @ decoded]" "[]"] ra have "ra" by simp
  with ra a show ?thesis by (simp add: path_resolve_resolved)
qed

section \<open>Evaluation on the sample host\<close>

lemma endsWith_eval: "endsWith s p = prefix (rev p) (rev s)"
  by (simp add: endsWith_def suffix_to_prefix)

lemmas js_eval =
  startsWith_def endsWith_eval orElse_def slice_from_def path_sep_def
  decodeURIComponent_def hexval_def char_of_def bit_Suc_0_iff
  utf8_cont_def utf8_valid2_def utf8_valid3_def utf8_valid4_def
  encodeURIComponent_def encode_char_def uriUnreserved_def hexdigit_def
  normalizeString_def norm_step_def path_resolve_def path_normalize_def path_join_def
  resolvePathSafe_def resolvePathSafe_server_def
  ROOT_def SECTIONS_def GAMES_BUCKETS_def matchSection_def
  strip_trailing_slashes_def isAllowedGamesRel_def inferModeFromRel_def
  array_sort_def bool_num_def plain_cmp_def union_cmp_def row_href_def
  download_handler_def union_view_def plain_view_def safeDecodePath_def first_part_def
  section_index_def error_middleware_def home_route_def app_def
  download_server_def index_server_def app_server_def
  child_row_def server_row_def bucket_row_def
  sample_dir_def sample_file_def dir_entry_def file_entry_def sample_lstat_def
  sample_readdir_def sample_host_def sample_host_games_denied_def Let_def

lemma sample_abs: "isAbsolute (dirname sample_host)"
  by (simp add: isAbsolute_def sample_host_def)

lemma sample_ROOT: "ROOT sample_host = ''/srv/files''"
  by (simp add: js_eval)

lemma sample_sections:
  "map_of (SECTIONS sample_host) ''/games'' = Some ''/srv/files/games''"
  "map_of (SECTIONS sample_host) ''/docs'' = Some ''/srv/files/docs''"
  by (simp_all add: js_eval)

lemma sample_cwd: "cwd sample_host = ''/''"
  by (simp add: sample_host_def)

lemma sample_match:
  "matchSection sample_host ''/docs/secret'' = Some ''/docs''"
  "matchSection sample_host ''/docs/locked'' = Some ''/docs''"
  "matchSection sample_host ''/docs'' = Some ''/docs''"
  "matchSection sample_host ''/games/solo/..'' = Some ''/games''"
  by (simp_all add: matchSection_def SECTIONS_def startsWith_def)

lemma sample_resolve:
  "resolvePathSafe ''/'' ''/srv/files/docs'' ''/secret'' = Some ''/srv/files/docs/secret''"
  "resolvePathSafe ''/'' ''/srv/files/docs'' ''/locked'' = Some ''/srv/files/docs/locked''"
  "resolvePathSafe ''/'' ''/srv/files/docs'' ''/'' = Some ''/srv/files/docs''"
  "resolvePathSafe ''/'' ''/srv/files/games'' ''/solo/..'' = Some ''/srv/files/games''"
  by (simp_all add: resolvePathSafe_def decodeURIComponent_def path_resolve_def
      normalizeString_def norm_step_def orElse_def endsWith_single startsWith_def path_sep_def)

lemma sample_lstat_values:
  "lstat sample_host ''/srv/files/docs/secret'' = Inl EACCES"
  "lstat sample_host ''/srv/files/docs/locked'' = Inr sample_dir"
  "lstat sample_host ''/srv/files/docs'' = Inr sample_dir"
  "lstat sample_host ''/srv/files/docs/b.txt'' = Inr (sample_file 10)"
  "lstat sample_host ''/srv/files/docs/broken'' = Inl ENOENT"
  "lstat sample_host ''/srv/files/docs/a'' = Inr sample_dir"
  "lstat sample_host ''/srv/files/games'' = Inr sample_dir"
  "lstat sample_host ''/srv/files/games/solo'' = Inr sample_dir"
  "lstat sample_host ''/srv/files/games/multi'' = Inr sample_dir"
  "lstat sample_host ''/srv/files/games/other'' = Inr sample_dir"
  by (simp_all add: sample_host_def sample_lstat_def)

lemma sample_readdir_values:
  "readdir sample_host ''/srv/files/docs/locked'' = Inl EACCES"
  "readdir sample_host ''/srv/files/docs'' =
     Inr [file_entry ''b.txt'', file_entry ''broken'', dir_entry ''a'']"
  "readdir sample_host ''/srv/files/games'' =
     Inr [dir_entry ''solo'', dir_entry ''other'', dir_entry ''multi'']"
  by (simp_all add: sample_host_def sample_readdir_def)

section \<open>C1: resolution never leaves the root\<close>

text \<open>
  C1. For a physical root (not empty, no trailing separator) and every relative URL
  path, \<open>resolvePathSafe\<close> returns either \<open>null\<close> or a path that is the root itself
  or has the root followed by the separator as a strict prefix; the returned path is
  resolved (absolute, no empty, \<open>.\<close> or \<open>..\<close> segment), so it names the root or a
  descendant of it. The \<open>resolvePathSafe\<close> of \<open>server.js\<close> returns the same values
  when decoding succeeds and otherwise throws URIError. A path that only shares the
  root's characters, \<open>/files2\<close> against \<open>/files\<close>, is rejected.
\<close>

theorem resolvePathSafe_confined:
  assumes "sectionRoot \<noteq> []" and "\<not> endsWith sectionRoot path_sep"
    and "wd \<noteq> []" and "hd wd = CHR ''/''"
  shows "(resolvePathSafe wd sectionRoot p = None \<or>
          (\<exists>absp. resolvePathSafe wd sectionRoot p = Some absp \<and>
                  (absp = sectionRoot \<or> strict_prefix (sectionRoot @ path_sep) absp) \<and>
                  is_resolved absp)) \<and>
         (resolvePathSafe_server wd sectionRoot p = Inl URIError \<or>
          resolvePathSafe_server wd sectionRoot p = Inr None \<or>
          (\<exists>absp. resolvePathSafe_server wd sectionRoot p = Inr (Some absp) \<and>
                  (absp = sectionRoot \<or> strict_prefix (sectionRoot @ path_sep) absp) \<and>
                  is_resolved absp)) \<and>
         resolvePathSafe wd ''/files'' ''/../files2'' = None"
proof -
  have v3: "resolvePathSafe wd sectionRoot p = None \<or>
          (\<exists>absp. resolvePathSafe wd sectionRoot p = Some absp \<and>
                  (absp = sectionRoot \<or> strict_prefix (sectionRoot @ path_sep) absp) \<and>
                  is_resolved absp)"
  proof (cases "resolvePathSafe wd sectionRoot p")
    case None
    then show ?thesis by simp
  next
    case (Some absp)
    from assms(1,2) Some have "absp = sectionRoot \<or> strict_prefix (sectionRoot @ path_sep) absp"
      by (rule confined_strict)
    moreover from assms(3,4) Some have "is_resolved absp"
      by (rule resolved_result)
    ultimately show ?thesis using Some by simp
  qed
  have ex: "resolvePathSafe wd ''/files'' ''/../files2'' = None"
    by (simp add: resolvePathSafe_def decodeURIComponent_def path_resolve_def normalizeString_def
        norm_step_def orElse_def endsWith_single startsWith_def path_sep_def)
  from v3 ex show ?thesis
    by (auto simp: resolvePathSafe_server_eq split: option.splits)
qed

theorem resolvePathSafe_confined_witness:
  "resolvePathSafe ''/'' ''/srv/files'' ''/a/../b%20c'' = Some ''/srv/files/b c'' \<and>
   strict_prefix (''/srv/files'' @ path_sep) ''/srv/files/b c'' \<and>
   is_resolved ''/srv/files/b c'' \<and>
   resolvePathSafe_server ''/'' ''/srv/files'' ''/a/../b%20c'' = Inr (Some ''/srv/files/b c'')"
proof -
  have e: "resolvePathSafe ''/'' ''/srv/files'' ''/a/../b%20c'' = Some ''/srv/files/b c''"
    by (simp add: resolvePathSafe_def decodeURIComponent_def hexval_def char_of_def bit_Suc_0_iff
        path_resolve_def normalizeString_def norm_step_def orElse_def endsWith_single
        startsWith_def path_sep_def)
  have s: "resolvePathSafe_server ''/'' ''/srv/files'' ''/a/../b%20c'' = Inr (Some ''/srv/files/b c'')"
    by (simp add: resolvePathSafe_server_eq e decodeURIComponent_def hexval_def char_of_def
        bit_Suc_0_iff orElse_def)
  from resolvePathSafe_confined [of "''/srv/files''" "''/''" "''/a/../b%20c''"] e s
  show ?thesis
    by (simp add: endsWith_single path_sep_def)
qed


section \<open>C3: section matching\<close>

lemma matchSection_keys_Some:
  "matchSection_keys keys p = Some key \<Longrightarrow>
   key \<in> set keys \<and> (p = key \<or> startsWith p (key @ ''/'') \<or> startsWith p (key @ ''%2F''))"
  by (induction keys) (auto split: if_splits)

lemma section_hit_prefix:
  "p = key \<or> startsWith p (key @ ''/'') \<or> startsWith p (key @ ''%2F'') \<Longrightarrow> prefix key p"
  by (auto simp: startsWith_def dest: append_prefixD)

lemma docs_games_disjoint: "prefix ''/docs'' p \<Longrightarrow> prefix ''/games'' p \<Longrightarrow> False"
  by (auto simp: prefix_def)

lemma matchSection_eq:
  "matchSection h p = Some key \<longleftrightarrow>
   (key = ''/docs'' \<or> key = ''/games'') \<and>
   (p = key \<or> startsWith p (key @ ''/'') \<or> startsWith p (key @ ''%2F''))"
proof
  assume "matchSection h p = Some key"
  then have "matchSection_keys (map fst (SECTIONS h)) p = Some key"
    by (simp add: matchSection_def)
  from matchSection_keys_Some [OF this]
  show "(key = ''/docs'' \<or> key = ''/games'') \<and>
   (p = key \<or> startsWith p (key @ ''/'') \<or> startsWith p (key @ ''%2F''))"
    by (auto simp: SECTIONS_def)
next
  assume a: "(key = ''/docs'' \<or> key = ''/games'') \<and>
   (p = key \<or> startsWith p (key @ ''/'') \<or> startsWith p (key @ ''%2F''))"
  then have pk: "prefix key p" by (simp add: section_hit_prefix)
  show "matchSection h p = Some key"
  proof (cases "key = ''/docs''")
    case True
    with a show ?thesis by (auto simp: matchSection_def SECTIONS_def)
  next
    case False
    with a have g: "key = ''/games''" by simp
    have "\<not> (p = ''/docs'' \<or> startsWith p (''/docs'' @ ''/'') \<or> startsWith p (''/docs'' @ ''%2F''))"
    proof
      assume "p = ''/docs'' \<or> startsWith p (''/docs'' @ ''/'') \<or> startsWith p (''/docs'' @ ''%2F'')"
      then have "prefix ''/docs'' p" by (rule section_hit_prefix)
      with pk g show False by (auto dest: docs_games_disjoint)
    qed
    with a g show ?thesis by (simp add: matchSection_def SECTIONS_def)
  qed
qed

text \<open>
  C3, as stated, fails: \<open>%2f\<close> is a percent-encoded separator (it decodes to
  \<open>/\<close>) and \<open>/games%2fsolo\<close> starts with the key \<open>/games\<close> followed by it, but
  \<open>matchSection\<close> compares with the upper-case \<open>%2F\<close> only and returns \<open>null\<close>.
\<close>

theorem matchSection_lowercase_counterexample:
  "decodeURIComponent ''%2f'' = Some ''/'' \<and>
   startsWith ''/games%2fsolo'' (''/games'' @ ''%2f'') \<and>
   matchSection sample_host ''/games%2fsolo'' = None"
  by (simp add: decodeURIComponent_def hexval_def char_of_def bit_Suc_0_iff startsWith_def
      matchSection_def SECTIONS_def)

text \<open>
  C3, amended. \<open>matchSection\<close> returns a key exactly when the key is registered and
  the URL path is the key, or starts with the key followed by \<open>/\<close>, or starts with the
  key followed by the upper-case escape \<open>%2F\<close>; the lower-case escape is not matched,
  so \<open>/games%2fsolo\<close> matches no section. The match stops at a segment boundary:
  \<open>/games2\<close> matches no section.
\<close>

theorem matchSection_segment_boundary:
  "(matchSection h urlPath = Some key \<longleftrightarrow>
      key \<in> set (map fst (SECTIONS h)) \<and>
      (urlPath = key \<or> startsWith urlPath (key @ ''/'') \<or> startsWith urlPath (key @ ''%2F''))) \<and>
   matchSection h ''/games2'' = None \<and>
   matchSection h ''/games'' = Some ''/games'' \<and>
   matchSection h ''/games/solo'' = Some ''/games'' \<and>
   matchSection h ''/games%2Fsolo'' = Some ''/games'' \<and>
   matchSection h ''/games%2fsolo'' = None"
proof -
  have k: "key \<in> set (map fst (SECTIONS h)) \<longleftrightarrow> key = ''/docs'' \<or> key = ''/games''"
    by (auto simp: SECTIONS_def)
  have "matchSection h ''/games2'' = None"
    by (simp add: matchSection_def SECTIONS_def startsWith_def)
  moreover have "matchSection h ''/games'' = Some ''/games''"
    by (simp add: matchSection_def SECTIONS_def startsWith_def)
  moreover have "matchSection h ''/games/solo'' = Some ''/games''"
    by (simp add: matchSection_def SECTIONS_def startsWith_def)
  moreover have "matchSection h ''/games%2Fsolo'' = Some ''/games''"
    by (simp add: matchSection_def SECTIONS_def startsWith_def)
  moreover have "matchSection h ''/games%2fsolo'' = None"
    by (simp add: matchSection_def SECTIONS_def startsWith_def)
  ultimately show ?thesis
    unfolding k by (simp only: matchSection_eq simp_thms)
qed


section \<open>C2: the games filter\<close>

lemma strip_append:
  "strip_trailing_slashes (a @ b) =
     (if \<forall>c\<in>set b. c = CHR ''/'' then strip_trailing_slashes a else a @ strip_trailing_slashes b)"
  by (simp add: strip_trailing_slashes_def dropWhile_append)

lemma strip_Nil_iff: "strip_trailing_slashes s = [] \<longleftrightarrow> (\<forall>c\<in>set s. c = CHR ''/'')"
  by (auto simp: strip_trailing_slashes_def dropWhile_eq_Nil_conv)

lemma strip_decomp: "\<exists>t. s = strip_trailing_slashes s @ t \<and> (\<forall>c\<in>set t. c = CHR ''/'')"
proof -
  let ?P = "\<lambda>c. c = CHR ''/''"
  have "rev s = takeWhile ?P (rev s) @ dropWhile ?P (rev s)" by simp
  then have "s = rev (dropWhile ?P (rev s)) @ rev (takeWhile ?P (rev s))"
    by (metis rev_append rev_rev_ident)
  moreover have "\<forall>c\<in>set (rev (takeWhile ?P (rev s))). c = CHR ''/''"
    by (auto dest: set_takeWhileD)
  ultimately show ?thesis unfolding strip_trailing_slashes_def by blast
qed

lemma strip_id: "s \<noteq> [] \<Longrightarrow> last s \<noteq> CHR ''/'' \<Longrightarrow> strip_trailing_slashes s = s"
  by (cases s rule: rev_cases) (simp_all add: strip_trailing_slashes_def)

lemma strip_last: "strip_trailing_slashes s \<noteq> [] \<Longrightarrow> last (strip_trailing_slashes s) \<noteq> CHR ''/''"
proof -
  assume ne: "strip_trailing_slashes s \<noteq> []"
  let ?d = "dropWhile (\<lambda>c. c = CHR ''/'') (rev s)"
  from ne have "?d \<noteq> []" by (simp add: strip_trailing_slashes_def)
  then have "hd ?d \<noteq> CHR ''/''" by (rule hd_dropWhile)
  with \<open>?d \<noteq> []\<close> show ?thesis by (simp add: strip_trailing_slashes_def last_rev)
qed

lemma takeWhile_not_sep:
  "d \<notin> set g \<Longrightarrow> takeWhile (\<lambda>c. c \<noteq> d) (g @ t) = g @ takeWhile (\<lambda>c. c \<noteq> d) t"
  by (induction g) auto

lemma allowed_slug:
  assumes g: "CHR ''/'' \<notin> set g" "g \<noteq> []"
  shows "(strip_trailing_slashes s = CHR ''/'' # g \<or>
          prefix (CHR ''/'' # g @ ''/'') (strip_trailing_slashes s)) \<longleftrightarrow>
         (\<exists>r. s = CHR ''/'' # r \<and> takeWhile (\<lambda>c. c \<noteq> CHR ''/'') r = g)"
    (is "?L \<longleftrightarrow> ?R")
proof
  assume l: ?L
  obtain t where t: "s = strip_trailing_slashes s @ t" "\<forall>c\<in>set t. c = CHR ''/''"
    using strip_decomp by blast
  have tw: "takeWhile (\<lambda>c. c \<noteq> CHR ''/'') t = []"
    using t(2) by (cases t) auto
  from l show ?R
  proof
    assume "strip_trailing_slashes s = CHR ''/'' # g"
    with t(1) have "s = CHR ''/'' # (g @ t)" by simp
    moreover have "takeWhile (\<lambda>c. c \<noteq> CHR ''/'') (g @ t) = g"
      using g tw by (simp add: takeWhile_not_sep)
    ultimately show ?R by blast
  next
    assume "prefix (CHR ''/'' # g @ ''/'') (strip_trailing_slashes s)"
    then obtain u where "strip_trailing_slashes s = (CHR ''/'' # g @ ''/'') @ u"
      by (auto simp: prefix_def)
    with t(1) have "s = CHR ''/'' # (g @ CHR ''/'' # u @ t)" by simp
    moreover have "takeWhile (\<lambda>c. c \<noteq> CHR ''/'') (g @ CHR ''/'' # u @ t) = g"
      using g by (simp add: takeWhile_not_sep)
    ultimately show ?R by blast
  qed
next
  assume ?R
  then obtain r where r: "s = CHR ''/'' # r" "takeWhile (\<lambda>c. c \<noteq> CHR ''/'') r = g"
    by blast
  define d where "d = dropWhile (\<lambda>c. c \<noteq> CHR ''/'') r"
  have rd: "r = g @ d"
    using r(2) unfolding d_def by (metis takeWhile_dropWhile_id)
  have hd_d: "d \<noteq> [] \<Longrightarrow> hd d = CHR ''/''"
    unfolding d_def using hd_dropWhile [of "\<lambda>c. c \<noteq> CHR ''/''" r] by simp
  have sg: "s = (CHR ''/'' # g) @ d" using r(1) rd by simp
  show ?L
  proof (cases "\<forall>c\<in>set d. c = CHR ''/''")
    case True
    have "strip_trailing_slashes (CHR ''/'' # g) = CHR ''/'' # g"
      using g by (intro strip_id) (auto simp: last_in_set dest: last_in_set)
    with True sg strip_append [of "CHR ''/'' # g" d] show ?thesis by simp
  next
    case False
    then have ne: "strip_trailing_slashes d \<noteq> []" by (simp add: strip_Nil_iff)
    obtain t where t: "d = strip_trailing_slashes d @ t" using strip_decomp by blast
    from False have "d \<noteq> []" by auto
    then have "hd d = CHR ''/''" by (rule hd_d)
    with t ne have "hd (strip_trailing_slashes d) = CHR ''/''"
      by (metis hd_append2)
    with ne obtain u where u: "strip_trailing_slashes d = CHR ''/'' # u"
      by (cases "strip_trailing_slashes d") auto
    have "strip_trailing_slashes s = (CHR ''/'' # g) @ strip_trailing_slashes d"
      unfolding sg using False by (subst strip_append) auto
    with u show ?thesis by simp
  qed
qed

lemma isAllowedGamesRel_iff:
  "isAllowedGamesRel rel \<longleftrightarrow>
     (\<forall>c\<in>set rel. c = CHR ''/'') \<or>
     (\<exists>r. rel = CHR ''/'' # r \<and> takeWhile (\<lambda>c. c \<noteq> CHR ''/'') r \<in> {''solo'', ''multi''})"
proof -
  let ?s = "orElse rel ''/''"
  let ?c = "strip_trailing_slashes ?s"
  have root: "?c = [] \<longleftrightarrow> (\<forall>c\<in>set rel. c = CHR ''/'')"
    by (auto simp: strip_Nil_iff orElse_def)
  have noslash: "?c \<noteq> ''/''"
    using strip_last [of ?s] by auto
  have solo: "(?c = ''/solo'' \<or> startsWith ?c ''/solo/'') \<longleftrightarrow>
      (\<exists>r. ?s = CHR ''/'' # r \<and> takeWhile (\<lambda>c. c \<noteq> CHR ''/'') r = ''solo'')"
    using allowed_slug [of "''solo''" ?s] by (simp add: startsWith_def)
  have multi: "(?c = ''/multi'' \<or> startsWith ?c ''/multi/'') \<longleftrightarrow>
      (\<exists>r. ?s = CHR ''/'' # r \<and> takeWhile (\<lambda>c. c \<noteq> CHR ''/'') r = ''multi'')"
    using allowed_slug [of "''multi''" ?s] by (simp add: startsWith_def)
  have s: "(\<exists>r. ?s = CHR ''/'' # r \<and> takeWhile (\<lambda>c. c \<noteq> CHR ''/'') r = g) \<longleftrightarrow>
           (\<exists>r. rel = CHR ''/'' # r \<and> takeWhile (\<lambda>c. c \<noteq> CHR ''/'') r = g)" if "g \<noteq> []" for g
    using that by (auto simp: orElse_def)
  have "isAllowedGamesRel rel \<longleftrightarrow>
      ?c = [] \<or> (?c = ''/solo'' \<or> startsWith ?c ''/solo/'') \<or> (?c = ''/multi'' \<or> startsWith ?c ''/multi/'')"
    using noslash by (auto simp: isAllowedGamesRel_def Let_def)
  then show ?thesis
    unfolding root solo multi by (auto simp: s)
qed


subsection \<open>The filter and the requests it rejects\<close>

lemma games_filter_examples:
  "isAllowedGamesRel ''/''" "isAllowedGamesRel []" "isAllowedGamesRel ''/solo''"
  "isAllowedGamesRel ''/solo/anything''" "isAllowedGamesRel ''/multi/x/y''"
  "\<not> isAllowedGamesRel ''/other''" "\<not> isAllowedGamesRel ''/solo2''"
  "\<not> isAllowedGamesRel ''/..%2f..''"
  by (simp_all add: isAllowedGamesRel_def strip_trailing_slashes_def orElse_def startsWith_def)

lemma games_root: "map_of (SECTIONS h) ''/games'' = Some (path_join [ROOT h, ''games''])"
  by (simp add: SECTIONS_def)

lemma disallowed_no_fs:
  assumes m: "matchSection h reqPath = Some ''/games''"
    and d: "\<not> isAllowedGamesRel (orElse (slice_from reqPath (length ''/games'')) ''/'')"
  shows "download_handler h reqPath = (Next, [])"
    and "section_index h reqPath = (Send 404 ''Introuvable'', [])"
    and "app h reqPath = (Send 404 ''Introuvable'', [])"
proof -
  let ?rel = "orElse (slice_from reqPath (length ''/games'')) ''/''"
  from d games_filter_examples(1,2) have nr: "?rel \<noteq> ''/''" "?rel \<noteq> []" by auto
  from m have np: "\<not> home_route reqPath"
    by (auto simp: matchSection_def SECTIONS_def startsWith_def home_route_def)
  show dl: "download_handler h reqPath = (Next, [])"
    using m d by (simp add: download_handler_def games_root Let_def)
  show ix: "section_index h reqPath = (Send 404 ''Introuvable'', [])"
    using m d nr by (simp add: section_index_def plain_view_def games_root Let_def)
  from dl ix np show "app h reqPath = (Send 404 ''Introuvable'', [])"
    by (simp add: app_def)
qed

text \<open>
  C2, as stated, fails: the first non-empty segment of \<open>//solo\<close> is the bucket slug
  \<open>solo\<close>, and \<open>isAllowedGamesRel\<close> rejects the path, because it compares the
  characters right after the first slash.
\<close>

theorem games_filter_counterexample:
  "first_nonempty_segment ''//solo'' = Some ''solo'' \<and> isPermitted_spec ''//solo'' \<and>
   \<not> isAllowedGamesRel ''//solo''"
  by (simp add: first_nonempty_segment_def isPermitted_spec_def isAllowedGamesRel_def
      strip_trailing_slashes_def orElse_def startsWith_def)

text \<open>
  C2, amended. \<open>isAllowedGamesRel\<close> returns true exactly for the paths made of slashes
  only (the section root, \<open>/\<close> or empty) and for the paths that start with one slash
  followed by a first segment equal to \<open>solo\<close> or \<open>multi\<close>: true for \<open>/\<close>, the
  empty path, \<open>/solo\<close>, \<open>/solo/anything\<close>, \<open>/multi/x/y\<close>; false for
  \<open>/other\<close>, \<open>/solo2\<close>, \<open>/..%2f..\<close>. A request under \<open>/games\<close> whose relative
  path is not allowed is passed on by the download middleware and answered 404 by the
  index middleware, with no filesystem access at all.
\<close>

theorem games_filter:
  "(isAllowedGamesRel rel \<longleftrightarrow>
      (\<forall>c\<in>set rel. c = CHR ''/'') \<or>
      (\<exists>r. rel = CHR ''/'' # r \<and> takeWhile (\<lambda>c. c \<noteq> CHR ''/'') r \<in> {''solo'', ''multi''})) \<and>
   isAllowedGamesRel ''/'' \<and> isAllowedGamesRel [] \<and> isAllowedGamesRel ''/solo'' \<and>
   isAllowedGamesRel ''/solo/anything'' \<and> isAllowedGamesRel ''/multi/x/y'' \<and>
   \<not> isAllowedGamesRel ''/other'' \<and> \<not> isAllowedGamesRel ''/solo2'' \<and>
   \<not> isAllowedGamesRel ''/..%2f..'' \<and>
   (matchSection h reqPath = Some ''/games'' \<and>
    \<not> isAllowedGamesRel (orElse (slice_from reqPath (length ''/games'')) ''/'') \<longrightarrow>
      download_handler h reqPath = (Next, []) \<and>
      section_index h reqPath = (Send 404 ''Introuvable'', []) \<and>
      app h reqPath = (Send 404 ''Introuvable'', []))"
  using isAllowedGamesRel_iff [of rel] games_filter_examples disallowed_no_fs [of h reqPath]
  by blast

theorem games_filter_witness:
  "matchSection sample_host ''/games/other'' = Some ''/games'' \<and>
   \<not> isAllowedGamesRel (orElse (slice_from ''/games/other'' (length ''/games'')) ''/'') \<and>
   app sample_host ''/games/other'' = (Send 404 ''Introuvable'', [])"
proof -
  have m: "matchSection sample_host ''/games/other'' = Some ''/games''"
    by (simp add: matchSection_def SECTIONS_def startsWith_def)
  have d: "\<not> isAllowedGamesRel (orElse (slice_from ''/games/other'' (length ''/games'')) ''/'')"
    by (simp add: isAllowedGamesRel_def strip_trailing_slashes_def orElse_def startsWith_def
        slice_from_def)
  from games_filter [of "''/other''" sample_host "''/games/other''"] m d show ?thesis
    by blast
qed

section \<open>Requests that reach the resolver\<close>

lemma rooted_no_trailing:
  assumes "list_all normal_seg segs" "segs \<noteq> []"
  shows "\<not> endsWith (rooted segs) path_sep" and "rooted segs \<noteq> []"
proof -
  have ne: "\<forall>s\<in>set segs. s \<noteq> []"
    using assms by (auto simp: list_all_iff normal_seg_def plain_seg_def)
  with assms(2) have l: "last (join_with ''/'' segs) = last (last segs)" by (rule join_with_last)
  have "normal_seg (last segs)" using assms by (auto simp: list_all_iff)
  then have "last (last segs) \<noteq> CHR ''/''"
    by (metis normal_seg_def plain_seg_def last_in_set)
  moreover have "join_with ''/'' segs \<noteq> []" using assms by (rule rooted_not_Nil)
  ultimately show "\<not> endsWith (rooted segs) path_sep"
    using l by (simp add: endsWith_single path_sep_def rooted_def)
  show "rooted segs \<noteq> []" by (simp add: rooted_def)
qed

lemma section_root_rooted:
  assumes a: "isAbsolute (dirname h)" and r: "map_of (SECTIONS h) key = Some root"
  shows "\<exists>segs. list_all normal_seg segs \<and> segs \<noteq> [] \<and> root = rooted segs"
proof -
  from ROOT_rooted [OF a] obtain S where S: "list_all normal_seg S" "ROOT h = rooted (S @ [''files''])"
    by blast
  have f: "list_all normal_seg (S @ [''files''])"
    using S(1) by (simp add: normal_seg_def plain_seg_def)
  have d: "path_join [ROOT h, ''docs''] = rooted ((S @ [''files'']) @ [''docs''])"
    unfolding S(2) by (rule path_join_rooted [OF f]) (simp_all add: normal_seg_def plain_seg_def)
  have g: "path_join [ROOT h, ''games''] = rooted ((S @ [''files'']) @ [''games''])"
    unfolding S(2) by (rule path_join_rooted [OF f]) (simp_all add: normal_seg_def plain_seg_def)
  from r have "root = path_join [ROOT h, ''docs''] \<or> root = path_join [ROOT h, ''games'']"
    by (auto simp: SECTIONS_def split: if_splits)
  then show ?thesis
  proof
    assume "root = path_join [ROOT h, ''docs'']"
    with d f show ?thesis
      by (intro exI [of _ "(S @ [''files'']) @ [''docs'']"]) (simp add: normal_seg_def plain_seg_def)
  next
    assume "root = path_join [ROOT h, ''games'']"
    with g f show ?thesis
      by (intro exI [of _ "(S @ [''files'']) @ [''games'']"]) (simp add: normal_seg_def plain_seg_def)
  qed
qed

lemma section_rel_not_Nil: "orElse s ''/'' \<noteq> []"
  by (simp add: orElse_def)

lemma orElse_idem: "orElse (orElse s ''/'') ''/'' = orElse s ''/''"
  by (simp add: orElse_def)

lemma matchSection_not_home: "matchSection h reqPath = Some key \<Longrightarrow> \<not> home_route reqPath"
  by (auto simp: matchSection_def SECTIONS_def startsWith_def home_route_def)

lemma resolvePathSafe_None_iff:
  assumes "\<not> endsWith root path_sep"
  shows "resolvePathSafe wd root rel = None \<longleftrightarrow>
     (case decodeURIComponent (orElse rel ''/'') of
        None \<Rightarrow> True
      | Some d \<Rightarrow> path_resolve wd [root, ''.'' @ d] \<noteq> root \<and>
                  \<not> startsWith (path_resolve wd [root, ''.'' @ d]) (root @ path_sep))"
  using assms by (auto simp: resolvePathSafe_def Let_def split: option.splits)

lemma rejected_400:
  assumes m: "matchSection h reqPath = Some key"
    and r: "map_of (SECTIONS h) key = Some root"
    and f: "key = ''/games'' \<longrightarrow> isAllowedGamesRel (orElse (slice_from reqPath (length key)) ''/'')"
    and n: "resolvePathSafe (cwd h) root (orElse (slice_from reqPath (length key)) ''/'') = None"
  shows "download_handler h reqPath = (Send 400 ''Chemin invalide'', [])"
    and "app h reqPath = (Send 400 ''Chemin invalide'', [])"
    and "\<not> (key = ''/games'' \<and> orElse (slice_from reqPath (length key)) ''/'' = ''/'') \<Longrightarrow>
         section_index h reqPath = (Send 400 ''Chemin invalide'', [])"
proof -
  show d: "download_handler h reqPath = (Send 400 ''Chemin invalide'', [])"
    using m r f n by (simp add: download_handler_def Let_def)
  from d matchSection_not_home [OF m] show "app h reqPath = (Send 400 ''Chemin invalide'', [])"
    by (simp add: app_def)
  show "section_index h reqPath = (Send 400 ''Chemin invalide'', [])"
    if "\<not> (key = ''/games'' \<and> orElse (slice_from reqPath (length key)) ''/'' = ''/'')"
    using that m r f n section_rel_not_Nil [of "slice_from reqPath (length key)"]
    by (auto simp: section_index_def plain_view_def Let_def)
qed

lemma union_view_page:
  "union_view h =
     (SendHtml \<lparr>p_title = ''/games'',
                p_rows = array_sort (union_cmp h) (fst (union_rows h (GAMES_BUCKETS h))),
                p_showMode = True, p_parentLink = False\<rparr>,
      snd (union_rows h (GAMES_BUCKETS h)))"
  by (simp add: union_view_def split: prod.splits)

lemma stat_failure_download:
  assumes m: "matchSection h reqPath = Some key"
    and r: "map_of (SECTIONS h) key = Some root"
    and f: "key = ''/games'' \<longrightarrow> isAllowedGamesRel (orElse (slice_from reqPath (length key)) ''/'')"
    and rs: "resolvePathSafe (cwd h) root (orElse (slice_from reqPath (length key)) ''/'') = Some absp"
    and l: "lstat h absp = Inl e"
  shows "download_handler h reqPath = (Next, [Lstat absp])"
  using m r f rs l by (simp add: download_handler_def Let_def)

lemma stat_failure_404:
  assumes m: "matchSection h reqPath = Some key"
    and r: "map_of (SECTIONS h) key = Some root"
    and f: "key = ''/games'' \<longrightarrow>
            isAllowedGamesRel (orElse (slice_from reqPath (length key)) ''/'') \<and>
            orElse (slice_from reqPath (length key)) ''/'' \<noteq> ''/''"
    and rs: "resolvePathSafe (cwd h) root (orElse (slice_from reqPath (length key)) ''/'') = Some absp"
    and l: "lstat h absp = Inl e"
  shows "download_handler h reqPath = (Next, [Lstat absp])"
    and "section_index h reqPath = (Send 404 ''Introuvable'', [Lstat absp])"
    and "app h reqPath = (Send 404 ''Introuvable'', [Lstat absp, Lstat absp])"
proof -
  show d: "download_handler h reqPath = (Next, [Lstat absp])"
    using m r f rs l by (simp add: download_handler_def Let_def)
  show i: "section_index h reqPath = (Send 404 ''Introuvable'', [Lstat absp])"
    using m r f rs l section_rel_not_Nil [of "slice_from reqPath (length key)"]
    by (auto simp: section_index_def plain_view_def Let_def)
  from d i matchSection_not_home [OF m]
  show "app h reqPath = (Send 404 ''Introuvable'', [Lstat absp, Lstat absp])"
    by (simp add: app_def)
qed

lemma stat_failure_games_root:
  assumes m: "matchSection h reqPath = Some ''/games''"
    and rl: "orElse (slice_from reqPath (length ''/games'')) ''/'' = ''/''"
    and rs: "resolvePathSafe (cwd h) (path_join [ROOT h, ''games'']) ''/'' = Some absp"
    and l: "lstat h absp = Inl e"
  shows "section_index h reqPath = union_view h"
    and "app h reqPath = (fst (union_view h), Lstat absp # snd (union_view h))"
proof -
  have a: "isAllowedGamesRel ''/''"
    by (simp add: isAllowedGamesRel_def strip_trailing_slashes_def orElse_def)
  have d: "download_handler h reqPath = (Next, [Lstat absp])"
    using m rl rs l a by (simp add: download_handler_def games_root Let_def)
  show i: "section_index h reqPath = union_view h"
    using m rl by (simp add: section_index_def games_root Let_def)
  from d i matchSection_not_home [OF m]
  show "app h reqPath = (fst (union_view h), Lstat absp # snd (union_view h))"
    by (simp add: app_def union_view_page)
qed

lemma readdir_failure_500:
  assumes m: "matchSection h reqPath = Some key"
    and r: "map_of (SECTIONS h) key = Some root"
    and f: "key = ''/games'' \<longrightarrow>
            isAllowedGamesRel (orElse (slice_from reqPath (length key)) ''/'') \<and>
            orElse (slice_from reqPath (length key)) ''/'' \<noteq> ''/''"
    and rs: "resolvePathSafe (cwd h) root (orElse (slice_from reqPath (length key)) ''/'') = Some absp"
    and l: "lstat h absp = Inr st" "st_isDirectory st"
    and rd: "readdir h absp = Inl e"
  shows "app h reqPath =
         (Send 500 ''Erreur interne. Consulte la console du serveur.'',
          [Lstat absp, Lstat absp, Readdir absp])"
proof -
  have d: "download_handler h reqPath = (Next, [Lstat absp])"
    using m r f rs l by (simp add: download_handler_def Let_def)
  have i: "section_index h reqPath = (NextErr (FsError e), [Lstat absp, Readdir absp])"
    using m r f rs l rd section_rel_not_Nil [of "slice_from reqPath (length key)"]
    by (auto simp: section_index_def plain_view_def Let_def)
  from d i matchSection_not_home [OF m] show ?thesis
    by (simp add: app_def error_middleware_def)
qed

section \<open>C7: decoding failures and traversal are rejected alike\<close>

text \<open>
  C7. For a request inside a section that reaches the resolver (under \<open>/games\<close>: one
  the filter allows), \<open>resolvePathSafe\<close> returns \<open>null\<close> exactly when the relative
  path cannot be percent-decoded or when the resolved path is neither the section root
  nor below it. In both cases the download middleware answers 400 \<open>Chemin invalide\<close>,
  which ends the request, and so does the index middleware; no filesystem call is made.
\<close>

theorem invalid_path_rejected_alike:
  assumes "isAbsolute (dirname h)"
    and "matchSection h reqPath = Some key"
    and "map_of (SECTIONS h) key = Some root"
    and "rel = orElse (slice_from reqPath (length key)) ''/''"
    and "key = ''/games'' \<longrightarrow> isAllowedGamesRel rel"
  shows "(resolvePathSafe (cwd h) root rel = None \<longleftrightarrow>
            decodeURIComponent rel = None \<or>
            (\<exists>d. decodeURIComponent rel = Some d \<and>
                 path_resolve (cwd h) [root, ''.'' @ d] \<noteq> root \<and>
                 \<not> startsWith (path_resolve (cwd h) [root, ''.'' @ d]) (root @ path_sep))) \<and>
         (resolvePathSafe (cwd h) root rel = None \<longrightarrow>
            download_handler h reqPath = (Send 400 ''Chemin invalide'', []) \<and>
            app h reqPath = (Send 400 ''Chemin invalide'', []) \<and>
            (\<not> (key = ''/games'' \<and> rel = ''/'') \<longrightarrow>
               section_index h reqPath = (Send 400 ''Chemin invalide'', [])))"
proof -
  from section_root_rooted [OF assms(1,3)] obtain segs
    where s: "list_all normal_seg segs" "segs \<noteq> []" "root = rooted segs" by blast
  then have nt: "\<not> endsWith root path_sep" by (simp add: rooted_no_trailing)
  have "resolvePathSafe (cwd h) root rel = None \<longleftrightarrow>
            decodeURIComponent rel = None \<or>
            (\<exists>d. decodeURIComponent rel = Some d \<and>
                 path_resolve (cwd h) [root, ''.'' @ d] \<noteq> root \<and>
                 \<not> startsWith (path_resolve (cwd h) [root, ''.'' @ d]) (root @ path_sep))"
    unfolding resolvePathSafe_None_iff [OF nt] assms(4) orElse_idem
    by (auto split: option.splits)
  moreover have "resolvePathSafe (cwd h) root rel = None \<longrightarrow>
            download_handler h reqPath = (Send 400 ''Chemin invalide'', []) \<and>
            app h reqPath = (Send 400 ''Chemin invalide'', []) \<and>
            (\<not> (key = ''/games'' \<and> rel = ''/'') \<longrightarrow>
               section_index h reqPath = (Send 400 ''Chemin invalide'', []))"
    using rejected_400 [OF assms(2,3)] assms(4,5) by simp
  ultimately show ?thesis by blast
qed

theorem invalid_path_rejected_alike_witness:
  "decodeURIComponent ''/solo/%zz'' = None \<and>
   app sample_host ''/games/solo/%zz'' = (Send 400 ''Chemin invalide'', []) \<and>
   decodeURIComponent ''/solo/../../../etc/passwd'' = Some ''/solo/../../../etc/passwd'' \<and>
   path_resolve ''/'' [''/srv/files/games'', ''./solo/../../../etc/passwd''] = ''/srv/etc/passwd'' \<and>
   app sample_host ''/games/solo/../../../etc/passwd'' = (Send 400 ''Chemin invalide'', [])"
proof -
  have m1: "matchSection sample_host ''/games/solo/%zz'' = Some ''/games''"
    and m2: "matchSection sample_host ''/games/solo/../../../etc/passwd'' = Some ''/games''"
    by (simp_all add: matchSection_def SECTIONS_def startsWith_def)
  have r1: "''/solo/%zz'' = orElse (slice_from ''/games/solo/%zz'' (length ''/games'')) ''/''"
    and r2: "''/solo/../../../etc/passwd'' =
             orElse (slice_from ''/games/solo/../../../etc/passwd'' (length ''/games'')) ''/''"
    by (simp_all add: orElse_def slice_from_def)
  have a1: "isAllowedGamesRel ''/solo/%zz''" and a2: "isAllowedGamesRel ''/solo/../../../etc/passwd''"
    by (simp_all add: isAllowedGamesRel_def strip_trailing_slashes_def orElse_def startsWith_def)
  have d1: "decodeURIComponent ''/solo/%zz'' = None"
    by (simp add: decodeURIComponent_def hexval_def)
  have d2: "decodeURIComponent ''/solo/../../../etc/passwd'' = Some ''/solo/../../../etc/passwd''"
    by (simp add: decodeURIComponent_def)
  have p2: "path_resolve ''/'' [''/srv/files/games'', ''./solo/../../../etc/passwd''] = ''/srv/etc/passwd''"
    by (simp add: path_resolve_def normalizeString_def norm_step_def)
  from invalid_path_rejected_alike [OF sample_abs m1 sample_sections(1) r1] a1 d1
  have w1: "app sample_host ''/games/solo/%zz'' = (Send 400 ''Chemin invalide'', [])"
    by simp
  from invalid_path_rejected_alike [OF sample_abs m2 sample_sections(1) r2] a2 d2 p2
  have w2: "app sample_host ''/games/solo/../../../etc/passwd'' = (Send 400 ''Chemin invalide'', [])"
    by (simp add: sample_cwd startsWith_def path_sep_def)
  from d1 d2 p2 w1 w2 show ?thesis by simp
qed


section \<open>C4: what a failing stat yields\<close>

text \<open>
  C4, as stated, fails: \<open>docs/secret\<close> exists and \<open>lstat\<close> fails on it with a
  permission error; the request is answered 404 \<open>Introuvable\<close>, not with a server error.
\<close>

theorem stat_failure_counterexample:
  "lstat sample_host ''/srv/files/docs/secret'' = Inl EACCES \<and>
   app sample_host ''/docs/secret'' =
     (Send 404 ''Introuvable'',
      [Lstat ''/srv/files/docs/secret'', Lstat ''/srv/files/docs/secret''])"
proof -
  have "app sample_host ''/docs/secret'' =
     (Send 404 ''Introuvable'',
      [Lstat ''/srv/files/docs/secret'', Lstat ''/srv/files/docs/secret''])"
    by (rule stat_failure_404 (3) [OF sample_match(1) sample_sections(2) _ _ sample_lstat_values(1)])
       (simp_all add: sample_cwd sample_resolve orElse_def slice_from_def)
  then show ?thesis by (simp add: sample_lstat_values)
qed

text \<open>
  C4, amended. When the resolved path is classified, every failure of \<open>lstat\<close>,
  not-found or any other (a permission error included), is taken as not-found: the
  download middleware passes the request on, and the index middleware answers 404
  \<open>Introuvable\<close>, except at the root of \<open>/games\<close>, which the index middleware does
  not classify and answers with the union view. A server error (500) comes from
  failures outside the guarded \<open>lstat\<close>: when a directory is listed and \<open>readdir\<close>
  fails on it.
\<close>

theorem stat_failure_is_not_found:
  assumes "matchSection h reqPath = Some key"
    and "map_of (SECTIONS h) key = Some root"
    and "rel = orElse (slice_from reqPath (length key)) ''/''"
    and "key = ''/games'' \<longrightarrow> isAllowedGamesRel rel"
    and "resolvePathSafe (cwd h) root rel = Some absp"
  shows "(lstat h absp = Inl e \<longrightarrow>
            download_handler h reqPath = (Next, [Lstat absp]) \<and>
            (if key = ''/games'' \<and> rel = ''/''
             then section_index h reqPath = union_view h \<and>
                  app h reqPath = (fst (union_view h), Lstat absp # snd (union_view h)) \<and>
                  fst (union_view h) =
                    SendHtml \<lparr>p_title = ''/games'',
                              p_rows = array_sort (union_cmp h) (fst (union_rows h (GAMES_BUCKETS h))),
                              p_showMode = True, p_parentLink = False\<rparr>
             else section_index h reqPath = (Send 404 ''Introuvable'', [Lstat absp]) \<and>
                  app h reqPath = (Send 404 ''Introuvable'', [Lstat absp, Lstat absp]))) \<and>
         (lstat h absp = Inr st \<and> st_isDirectory st \<and> readdir h absp = Inl e \<and>
          \<not> (key = ''/games'' \<and> rel = ''/'') \<longrightarrow>
            app h reqPath =
              (Send 500 ''Erreur interne. Consulte la console du serveur.'',
               [Lstat absp, Lstat absp, Readdir absp]))"
proof (intro conjI impI)
  assume l: "lstat h absp = Inl e"
  show "download_handler h reqPath = (Next, [Lstat absp])"
    using assms l stat_failure_download [of h reqPath key root absp e] by simp
  show "if key = ''/games'' \<and> rel = ''/''
        then section_index h reqPath = union_view h \<and>
             app h reqPath = (fst (union_view h), Lstat absp # snd (union_view h)) \<and>
             fst (union_view h) =
               SendHtml \<lparr>p_title = ''/games'',
                         p_rows = array_sort (union_cmp h) (fst (union_rows h (GAMES_BUCKETS h))),
                         p_showMode = True, p_parentLink = False\<rparr>
        else section_index h reqPath = (Send 404 ''Introuvable'', [Lstat absp]) \<and>
             app h reqPath = (Send 404 ''Introuvable'', [Lstat absp, Lstat absp])"
  proof (cases "key = ''/games'' \<and> rel = ''/''")
    case True
    with assms(2) have rt: "root = path_join [ROOT h, ''games'']" by (simp add: games_root)
    from True assms(1) have m: "matchSection h reqPath = Some ''/games''" by simp
    from True have k: "key = ''/games''" and re: "rel = ''/''" by simp_all
    from assms(3) have rl: "orElse (slice_from reqPath (length ''/games'')) ''/'' = ''/''"
      unfolding k re by (rule sym)
    from True assms(5) rt
    have rs: "resolvePathSafe (cwd h) (path_join [ROOT h, ''games'']) ''/'' = Some absp" by simp
    from stat_failure_games_root [OF m rl rs l] True show ?thesis
      by (simp add: union_view_page)
  next
    case False
    with assms l stat_failure_404 [of h reqPath key root absp e] show ?thesis
      by auto
  qed
next
  assume a: "lstat h absp = Inr st \<and> st_isDirectory st \<and> readdir h absp = Inl e \<and>
             \<not> (key = ''/games'' \<and> rel = ''/'')"
  with assms readdir_failure_500 [of h reqPath key root absp st e]
  show "app h reqPath =
          (Send 500 ''Erreur interne. Consulte la console du serveur.'',
           [Lstat absp, Lstat absp, Readdir absp])"
    by auto
qed

theorem stat_failure_is_not_found_witness:
  "lstat sample_host ''/srv/files/docs/secret'' = Inl EACCES \<and>
   app sample_host ''/docs/secret'' =
     (Send 404 ''Introuvable'',
      [Lstat ''/srv/files/docs/secret'', Lstat ''/srv/files/docs/secret'']) \<and>
   lstat sample_host ''/srv/files/docs/locked'' = Inr sample_dir \<and>
   st_isDirectory sample_dir \<and>
   readdir sample_host ''/srv/files/docs/locked'' = Inl EACCES \<and>
   app sample_host ''/docs/locked'' =
     (Send 500 ''Erreur interne. Consulte la console du serveur.'',
      [Lstat ''/srv/files/docs/locked'', Lstat ''/srv/files/docs/locked'',
       Readdir ''/srv/files/docs/locked'']) \<and>
   lstat sample_host_games_denied ''/srv/files/games'' = Inl EACCES \<and>
   download_handler sample_host_games_denied ''/games'' = (Next, [Lstat ''/srv/files/games'']) \<and>
   app sample_host_games_denied ''/games'' =
     (fst (union_view sample_host_games_denied),
      Lstat ''/srv/files/games'' # snd (union_view sample_host_games_denied)) \<and>
   map_option (map r_name) (page_rows (fst (union_view sample_host_games_denied))) =
     Some [''a.zip'', ''b.zip'', ''c.zip'']"
proof -
  have r1: "''/secret'' = orElse (slice_from ''/docs/secret'' (length ''/docs'')) ''/''"
    and r2: "''/locked'' = orElse (slice_from ''/docs/locked'' (length ''/docs'')) ''/''"
    and r3: "''/'' = orElse (slice_from ''/games'' (length ''/games'')) ''/''"
    by (simp_all add: orElse_def slice_from_def)
  have g: "''/docs'' = ''/games'' \<longrightarrow> P" for P by simp
  have s1: "resolvePathSafe (cwd sample_host) ''/srv/files/docs'' ''/secret'' =
            Some ''/srv/files/docs/secret''"
    and s2: "resolvePathSafe (cwd sample_host) ''/srv/files/docs'' ''/locked'' =
            Some ''/srv/files/docs/locked''"
    by (simp_all add: sample_cwd sample_resolve)
  from stat_failure_is_not_found [OF sample_match(1) sample_sections(2) r1 g s1, of EACCES]
  have w1: "app sample_host ''/docs/secret'' =
     (Send 404 ''Introuvable'',
      [Lstat ''/srv/files/docs/secret'', Lstat ''/srv/files/docs/secret''])"
    by (simp add: sample_lstat_values)
  from stat_failure_is_not_found [OF sample_match(2) sample_sections(2) r2 g s2, of EACCES sample_dir]
  have w2: "app sample_host ''/docs/locked'' =
     (Send 500 ''Erreur interne. Consulte la console du serveur.'',
      [Lstat ''/srv/files/docs/locked'', Lstat ''/srv/files/docs/locked'',
       Readdir ''/srv/files/docs/locked''])"
    by (simp add: sample_lstat_values sample_readdir_values sample_dir_def)
  have m3: "matchSection sample_host_games_denied ''/games'' = Some ''/games''"
    by (simp add: matchSection_def SECTIONS_def startsWith_def)
  have k3: "map_of (SECTIONS sample_host_games_denied) ''/games'' = Some ''/srv/files/games''"
    by (simp add: js_eval)
  have a3: "''/games'' = ''/games'' \<longrightarrow> isAllowedGamesRel ''/''"
    by (simp add: isAllowedGamesRel_def strip_trailing_slashes_def orElse_def)
  have s3: "resolvePathSafe (cwd sample_host_games_denied) ''/srv/files/games'' ''/'' =
            Some ''/srv/files/games''"
    by (simp add: sample_host_games_denied_def resolvePathSafe_def decodeURIComponent_def
        path_resolve_def normalizeString_def norm_step_def orElse_def endsWith_single
        startsWith_def path_sep_def)
  have l3: "lstat sample_host_games_denied ''/srv/files/games'' = Inl EACCES"
    by (simp add: sample_host_games_denied_def)
  from stat_failure_is_not_found [OF m3 k3 r3 a3 s3, of EACCES] l3
  have w3: "download_handler sample_host_games_denied ''/games'' = (Next, [Lstat ''/srv/files/games''])"
    and w4: "app sample_host_games_denied ''/games'' =
     (fst (union_view sample_host_games_denied),
      Lstat ''/srv/files/games'' # snd (union_view sample_host_games_denied))"
    by simp_all
  have w5: "map_option (map r_name) (page_rows (fst (union_view sample_host_games_denied))) =
     Some [''a.zip'', ''b.zip'', ''c.zip'']"
    by (simp add: page_rows_def js_eval)
  from w1 w2 w3 w4 w5 l3 show ?thesis
    by (simp add: sample_lstat_values sample_readdir_values sample_dir_def)
qed

section \<open>Listings\<close>

lemma child_rows_rows:
  "fst (child_rows h key rel rp absp list) =
   concat (map (\<lambda>e. case lstat h (path_join [absp, d_name e]) of
                        Inl _ \<Rightarrow> [] | Inr s \<Rightarrow> [child_row key rel rp e s]) list)"
  by (induction list) (auto simp: Let_def split: prod.splits sum.splits)

lemma child_rows_trace:
  "snd (child_rows h key rel rp absp list) = map (\<lambda>e. Lstat (path_join [absp, d_name e])) list"
  by (induction list) (auto simp: Let_def split: prod.splits sum.splits)

lemma set_insert_by: "set (insert_by cmp x ys) = insert x (set ys)"
  by (induction ys) auto

lemma set_array_sort: "set (array_sort cmp xs) = set xs"
  by (induction xs) (simp_all add: array_sort_def set_insert_by)

lemma mset_insert_by: "mset (insert_by cmp x ys) = add_mset x (mset ys)"
  by (induction ys) auto

lemma mset_array_sort: "mset (array_sort cmp xs) = mset xs"
  by (induction xs) (simp_all add: array_sort_def mset_insert_by)

lemma plain_view_listing:
  assumes f: "key = ''/games'' \<longrightarrow> isAllowedGamesRel rel"
    and rs: "resolvePathSafe (cwd h) root rel = Some absp"
    and l: "lstat h absp = Inr st" "st_isDirectory st"
    and rd: "readdir h absp = Inr list"
  shows "plain_view h key root rel reqPath =
     (SendHtml
        \<lparr>p_title = safeDecodePath (orElse reqPath ''/''),
         p_rows = array_sort (plain_cmp h) (fst (child_rows h key rel reqPath absp list)),
         p_showMode = True,
         p_parentLink =
           (safeDecodePath (orElse reqPath ''/'') \<noteq>
              ''/'' @ first_part (safeDecodePath (orElse reqPath ''/'')) @ ''/'' \<and>
            safeDecodePath (orElse reqPath ''/'') \<noteq>
              ''/'' @ first_part (safeDecodePath (orElse reqPath ''/'')))\<rparr>,
      Lstat absp # Readdir absp # snd (child_rows h key rel reqPath absp list))"
  using assms by (auto simp: plain_view_def Let_def split: prod.splits)

lemma section_index_games:
  assumes "matchSection h reqPath = Some ''/games''"
  shows "section_index h reqPath =
     (if orElse (slice_from reqPath (length ''/games'')) ''/'' = ''/'' then union_view h
      else plain_view h ''/games'' (path_join [ROOT h, ''games''])
             (orElse (slice_from reqPath (length ''/games'')) ''/'') reqPath)"
  using assms section_rel_not_Nil [of "slice_from reqPath (length ''/games'')"]
  by (simp add: section_index_def games_root Let_def)

lemma games_root_rooted:
  assumes "isAbsolute (dirname h)"
  shows "\<exists>segs. list_all normal_seg segs \<and> segs \<noteq> [] \<and> path_join [ROOT h, ''games''] = rooted segs"
  using section_root_rooted [OF assms games_root] .

lemma resolve_dotdot:
  assumes s: "list_all normal_seg segs" "segs \<noteq> []"
  shows "resolvePathSafe wd (rooted segs) ''/solo/..'' = Some (rooted segs)"
proof -
  have d: "decodeURIComponent (orElse ''/solo/..'' ''/'') = Some ''/solo/..''"
    by (simp add: decodeURIComponent_def orElse_def)
  have "path_resolve wd [rooted segs, ''.'' @ ''/solo/..''] =
        rooted (foldl (norm_step False) segs (split_on CHR ''/'' ((''.'' @ ''/solo/..'') @ ''/'')))"
    by (rule path_resolve_rooted [OF s(1)]) simp_all
  also have "\<dots> = rooted segs"
    by (simp add: norm_step_def)
  finally show ?thesis
    by (simp add: resolvePathSafe_def d Let_def)
qed

section \<open>C6: a child that cannot be stat'ed\<close>

text \<open>
  C6. The directory \<open>docs\<close> of the sample host has three children, and \<open>lstat\<close>
  fails on \<open>broken\<close>. The sectioned server omits that child and answers with the
  listing of the other two. The child loop of \<open>server.js\<close> awaits \<open>fs.lstat\<close>
  outside any \<open>try\<close>: the failure leaves the loop, reaches the error middleware and
  the same request is answered 500.
\<close>

theorem child_stat_failure_server:
  "readdir sample_host ''/srv/files/docs'' =
     Inr [file_entry ''b.txt'', file_entry ''broken'', dir_entry ''a''] \<and>
   lstat sample_host ''/srv/files/docs/broken'' = Inl ENOENT \<and>
   app_server sample_host GET ''/docs'' =
     (Send 500 ''Erreur interne. Consulte la console du serveur.'',
      [Lstat ''/srv/files/docs'', Lstat ''/srv/files/docs'', Readdir ''/srv/files/docs'',
       Lstat ''/srv/files/docs/b.txt'', Lstat ''/srv/files/docs/broken'']) \<and>
   (\<exists>page. fst (app sample_host ''/docs'') = SendHtml page \<and>
           map r_name (p_rows page) = [''a/'', ''b.txt''])"
proof -
  have s: "app_server sample_host GET ''/docs'' =
     (Send 500 ''Erreur interne. Consulte la console du serveur.'',
      [Lstat ''/srv/files/docs'', Lstat ''/srv/files/docs'', Readdir ''/srv/files/docs'',
       Lstat ''/srv/files/docs/b.txt'', Lstat ''/srv/files/docs/broken''])"
    by (simp add: js_eval)
  have a: "\<exists>page. fst (app sample_host ''/docs'') = SendHtml page \<and>
           map r_name (p_rows page) = [''a/'', ''b.txt'']"
    by (simp add: js_eval)
  from s a show ?thesis
    by (simp add: sample_lstat_values sample_readdir_values)
qed


section \<open>C8: the union view and the plain listing of the games root\<close>

text \<open>
  C8. Under \<open>/games\<close> the index middleware produces the union view only when the
  relative path is \<open>/\<close> (the empty path has been replaced by \<open>/\<close>); every other
  path takes the standard branch. \<open>/solo/..\<close> passes the filter and resolves to the
  games root itself, so when that root is a readable directory the request
  \<open>/games/solo/..\<close> is answered with the plain listing of its children: one row for
  every child that can be stat'ed, whether it is a bucket or not.
\<close>

theorem games_dotdot_plain_listing:
  assumes "isAbsolute (dirname h)"
    and "gamesRoot = path_join [ROOT h, ''games'']"
    and "lstat h gamesRoot = Inr st" and "st_isDirectory st"
    and "readdir h gamesRoot = Inr list"
  shows "(matchSection h reqPath = Some ''/games'' \<longrightarrow>
            section_index h reqPath =
              (if orElse (slice_from reqPath (length ''/games'')) ''/'' = ''/'' then union_view h
               else plain_view h ''/games'' gamesRoot
                      (orElse (slice_from reqPath (length ''/games'')) ''/'') reqPath)) \<and>
         isAllowedGamesRel ''/solo/..'' \<and>
         resolvePathSafe (cwd h) gamesRoot ''/solo/..'' = Some gamesRoot \<and>
         section_index h ''/games/solo/..'' =
           (SendHtml
              \<lparr>p_title = ''/games/solo/..'',
               p_rows = array_sort (plain_cmp h)
                  (concat (map (\<lambda>e. case lstat h (path_join [gamesRoot, d_name e]) of
                                       Inl _ \<Rightarrow> []
                                     | Inr s \<Rightarrow> [child_row ''/games'' ''/solo/..'' ''/games/solo/..'' e s])
                           list)),
               p_showMode = True,
               p_parentLink = True\<rparr>,
            Lstat gamesRoot # Readdir gamesRoot #
            map (\<lambda>e. Lstat (path_join [gamesRoot, d_name e])) list) \<and>
         (\<forall>e\<in>set list. \<forall>s. lstat h (path_join [gamesRoot, d_name e]) = Inr s \<longrightarrow>
            (\<exists>page. fst (section_index h ''/games/solo/..'') = SendHtml page \<and>
                    child_row ''/games'' ''/solo/..'' ''/games/solo/..'' e s \<in> set (p_rows page)))"
proof -
  from games_root_rooted [OF assms(1)] obtain segs
    where s: "list_all normal_seg segs" "segs \<noteq> []" "gamesRoot = rooted segs"
    unfolding assms(2) by blast
  have a: "isAllowedGamesRel ''/solo/..''"
    by (simp add: isAllowedGamesRel_def strip_trailing_slashes_def orElse_def startsWith_def)
  have r: "resolvePathSafe (cwd h) gamesRoot ''/solo/..'' = Some gamesRoot"
    unfolding s(3) by (rule resolve_dotdot [OF s(1,2)])
  have m: "matchSection h ''/games/solo/..'' = Some ''/games''"
    by (simp add: matchSection_def SECTIONS_def startsWith_def)
  have t: "safeDecodePath (orElse ''/games/solo/..'' ''/'') = ''/games/solo/..''"
    by (simp add: safeDecodePath_def decodeURIComponent_def orElse_def)
  have p: "first_part ''/games/solo/..'' = ''games''"
    by (simp add: first_part_def)
  have rel: "orElse (slice_from ''/games/solo/..'' (length ''/games'')) ''/'' = ''/solo/..''"
    by (simp add: orElse_def slice_from_def)
  have ix: "section_index h ''/games/solo/..'' =
           (SendHtml
              \<lparr>p_title = ''/games/solo/..'',
               p_rows = array_sort (plain_cmp h)
                  (concat (map (\<lambda>e. case lstat h (path_join [gamesRoot, d_name e]) of
                                       Inl _ \<Rightarrow> []
                                     | Inr s \<Rightarrow> [child_row ''/games'' ''/solo/..'' ''/games/solo/..'' e s])
                           list)),
               p_showMode = True,
               p_parentLink = True\<rparr>,
            Lstat gamesRoot # Readdir gamesRoot #
            map (\<lambda>e. Lstat (path_join [gamesRoot, d_name e])) list)"
    unfolding section_index_games [OF m] rel assms(2) [symmetric]
    using plain_view_listing [of "''/games''" "''/solo/..''" h gamesRoot gamesRoot st list
        "''/games/solo/..''"] a r assms(3,4,5)
    by (simp add: t p child_rows_rows child_rows_trace)
  have g: "matchSection h reqPath = Some ''/games'' \<longrightarrow>
            section_index h reqPath =
              (if orElse (slice_from reqPath (length ''/games'')) ''/'' = ''/'' then union_view h
               else plain_view h ''/games'' gamesRoot
                      (orElse (slice_from reqPath (length ''/games'')) ''/'') reqPath)"
    unfolding assms(2) using section_index_games [of h reqPath] by blast
  have e: "\<forall>e\<in>set list. \<forall>s. lstat h (path_join [gamesRoot, d_name e]) = Inr s \<longrightarrow>
            (\<exists>page. fst (section_index h ''/games/solo/..'') = SendHtml page \<and>
                    child_row ''/games'' ''/solo/..'' ''/games/solo/..'' e s \<in> set (p_rows page))"
    unfolding ix by (force simp: set_array_sort)
  from g a r ix e show ?thesis by blast
qed


theorem games_dotdot_plain_listing_witness:
  "isAbsolute (dirname sample_host) \<and>
   lstat sample_host ''/srv/files/games'' = Inr sample_dir \<and> st_isDirectory sample_dir \<and>
   readdir sample_host ''/srv/files/games'' =
     Inr [dir_entry ''solo'', dir_entry ''other'', dir_entry ''multi''] \<and>
   resolvePathSafe (cwd sample_host) ''/srv/files/games'' ''/solo/..'' = Some ''/srv/files/games'' \<and>
   (\<exists>page tr. section_index sample_host ''/games/solo/..'' = (SendHtml page, tr) \<and>
      map r_name (p_rows page) = [''multi/'', ''other/'', ''solo/''])"
proof -
  have g: "''/srv/files/games'' = path_join [ROOT sample_host, ''games'']"
    by (simp add: js_eval)
  have d: "st_isDirectory sample_dir" by (simp add: sample_dir_def)
  from games_dotdot_plain_listing [OF sample_abs g sample_lstat_values(7) d sample_readdir_values(3),
      of "''/games/solo/..''"]
  have r: "resolvePathSafe (cwd sample_host) ''/srv/files/games'' ''/solo/..'' = Some ''/srv/files/games''"
    and ix: "section_index sample_host ''/games/solo/..'' =
           (SendHtml
              \<lparr>p_title = ''/games/solo/..'',
               p_rows = array_sort (plain_cmp sample_host)
                  (concat (map (\<lambda>e. case lstat sample_host (path_join [''/srv/files/games'', d_name e]) of
                                       Inl _ \<Rightarrow> []
                                     | Inr s \<Rightarrow> [child_row ''/games'' ''/solo/..'' ''/games/solo/..'' e s])
                           [dir_entry ''solo'', dir_entry ''other'', dir_entry ''multi''])),
               p_showMode = True,
               p_parentLink = True\<rparr>,
            Lstat ''/srv/files/games'' # Readdir ''/srv/files/games'' #
            map (\<lambda>e. Lstat (path_join [''/srv/files/games'', d_name e]))
              [dir_entry ''solo'', dir_entry ''other'', dir_entry ''multi''])"
    by blast+
  have "\<exists>page tr. section_index sample_host ''/games/solo/..'' = (SendHtml page, tr) \<and>
      map r_name (p_rows page) = [''multi/'', ''other/'', ''solo/'']"
    unfolding ix by (simp add: js_eval)
  with r d show ?thesis
    by (simp add: sample_abs sample_lstat_values sample_readdir_values)
qed

section \<open>Sorting\<close>

lemma sorted_insert_by:
  assumes c: "consistent_comparator cmp"
    and s: "sorted_wrt (\<lambda>a b. cmp a b \<le> 0) ys"
  shows "sorted_wrt (\<lambda>a b. cmp a b \<le> 0) (insert_by cmp x ys)"
  using s
proof (induction ys)
  case Nil
  then show ?case by simp
next
  case (Cons y ys)
  from c have tot: "cmp x y \<le> 0 \<or> cmp y x \<le> 0"
    and tr: "\<And>a b c. cmp a b \<le> 0 \<Longrightarrow> cmp b c \<le> 0 \<Longrightarrow> cmp a c \<le> 0"
    unfolding consistent_comparator_def by blast+
  show ?case
  proof (cases "cmp x y \<le> 0")
    case True
    have "cmp x z \<le> 0" if "z \<in> set ys" for z
    proof -
      from Cons.prems that have "cmp y z \<le> 0" by simp
      with True show ?thesis by (rule tr)
    qed
    with True Cons.prems show ?thesis by simp
  next
    case False
    with tot have "cmp y x \<le> 0" by simp
    with False Cons show ?thesis by (auto simp: set_insert_by)
  qed
qed

lemma sorted_array_sort:
  "consistent_comparator cmp \<Longrightarrow> sorted_wrt (\<lambda>a b. cmp a b \<le> 0) (array_sort cmp xs)"
  by (induction xs) (simp_all add: array_sort_def sorted_insert_by)

lemma plain_cmp_consistent:
  assumes "consistent_comparator (localeCompare h)"
  shows "consistent_comparator (plain_cmp h)"
proof -
  from assms have tot: "\<And>a b. localeCompare h a b \<le> 0 \<or> localeCompare h b a \<le> 0"
    and tr: "\<And>a b c. localeCompare h a b \<le> 0 \<Longrightarrow> localeCompare h b c \<le> 0
                 \<Longrightarrow> localeCompare h a c \<le> 0"
    unfolding consistent_comparator_def by blast+
  have "plain_cmp h a b \<le> 0 \<or> plain_cmp h b a \<le> 0" for a b
    using tot [of "r_name a" "r_name b"] by (auto simp: plain_cmp_def bool_num_def Let_def)
  moreover have "plain_cmp h a c \<le> 0" if "plain_cmp h a b \<le> 0" "plain_cmp h b c \<le> 0" for a b c
    using that tr [of "r_name a" "r_name b" "r_name c"]
    by (auto simp: plain_cmp_def bool_num_def Let_def split: if_splits)
  ultimately show ?thesis unfolding consistent_comparator_def by blast
qed

lemma union_cmp_consistent:
  assumes "consistent_comparator (localeCompare h)"
  shows "consistent_comparator (union_cmp h)"
proof -
  from assms have tot: "\<And>a b. localeCompare h a b \<le> 0 \<or> localeCompare h b a \<le> 0"
    and tr: "\<And>a b c. localeCompare h a b \<le> 0 \<Longrightarrow> localeCompare h b c \<le> 0
                 \<Longrightarrow> localeCompare h a c \<le> 0"
    unfolding consistent_comparator_def by blast+
  have "union_cmp h a b \<le> 0 \<or> union_cmp h b a \<le> 0" for a b
    using tot [of "r_name a" "r_name b"] by (simp add: union_cmp_def)
  moreover have "union_cmp h a c \<le> 0" if "union_cmp h a b \<le> 0" "union_cmp h b c \<le> 0" for a b c
    using that tr [of "r_name a" "r_name b" "r_name c"] by (simp add: union_cmp_def)
  ultimately show ?thesis unfolding consistent_comparator_def by blast
qed

lemma sorted_splits:
  assumes "sorted_wrt R xs" and "\<And>a b. R a b \<Longrightarrow> P b \<Longrightarrow> P a"
  shows "xs = filter P xs @ filter (\<lambda>x. \<not> P x) xs"
  using assms(1)
proof (induction xs)
  case Nil
  then show ?case by simp
next
  case (Cons x xs)
  show ?case
  proof (cases "P x")
    case True
    with Cons show ?thesis by simp
  next
    case False
    with Cons.prems assms(2) have "\<forall>y\<in>set xs. \<not> P y" by auto
    then have "filter P xs = []" "filter (\<lambda>x. \<not> P x) xs = xs"
      by (simp_all add: filter_empty_conv filter_id_conv)
    with False show ?thesis by simp
  qed
qed

lemma plain_cmp_dir_first: "plain_cmp h a b \<le> 0 \<Longrightarrow> r_isDir b \<Longrightarrow> r_isDir a"
  by (auto simp: plain_cmp_def bool_num_def Let_def split: if_splits)

lemma plain_cmp_same_kind:
  "r_isDir a = r_isDir b \<Longrightarrow> plain_cmp h a b = localeCompare h (r_name a) (r_name b)"
  by (simp add: plain_cmp_def bool_num_def Let_def)

lemma byte_compare_Nil_le: "byte_compare [] b \<le> 0"
  by (cases b) simp_all

lemma byte_compare_le_Nil: "byte_compare a [] \<le> 0 \<longleftrightarrow> a = []"
  by (cases a) simp_all

lemma byte_compare_Cons_le:
  "byte_compare (x # xs) (y # ys) \<le> 0 \<longleftrightarrow>
     (of_char x :: nat) < of_char y \<or> ((of_char x :: nat) = of_char y \<and> byte_compare xs ys \<le> 0)"
  by (cases "(of_char x :: nat) < of_char y"; cases "(of_char y :: nat) < of_char x") auto

lemma byte_compare_total: "byte_compare a b \<le> 0 \<or> byte_compare b a \<le> 0"
proof (induction a arbitrary: b)
  case Nil
  then show ?case by (simp add: byte_compare_Nil_le)
next
  case (Cons x xs)
  show ?case
  proof (cases b)
    case Nil
    then show ?thesis by (simp add: byte_compare_Nil_le)
  next
    case (Cons y ys)
    with Cons.IH [of ys] show ?thesis
      unfolding Cons byte_compare_Cons_le by linarith
  qed
qed

lemma byte_compare_trans:
  "byte_compare a b \<le> 0 \<Longrightarrow> byte_compare b c \<le> 0 \<Longrightarrow> byte_compare a c \<le> 0"
proof (induction a arbitrary: b c)
  case Nil
  then show ?case by (simp add: byte_compare_Nil_le)
next
  case (Cons x xs)
  from Cons.prems(1) obtain y ys where b: "b = y # ys"
    by (cases b) simp_all
  from Cons.prems(2) b obtain z zs where c: "c = z # zs"
    by (cases c) simp_all
  from Cons.prems have
    xy: "(of_char x :: nat) < of_char y \<or> ((of_char x :: nat) = of_char y \<and> byte_compare xs ys \<le> 0)"
    and yz: "(of_char y :: nat) < of_char z \<or> ((of_char y :: nat) = of_char z \<and> byte_compare ys zs \<le> 0)"
    unfolding b c byte_compare_Cons_le by simp_all
  show ?case
  proof (cases "(of_char x :: nat) < of_char z")
    case True
    then show ?thesis unfolding c byte_compare_Cons_le by simp
  next
    case False
    with xy yz have e: "(of_char x :: nat) = of_char y" "(of_char y :: nat) = of_char z"
      and r: "byte_compare xs ys \<le> 0" "byte_compare ys zs \<le> 0"
      by linarith+
    from r have "byte_compare xs zs \<le> 0" by (rule Cons.IH)
    with e show ?thesis unfolding c byte_compare_Cons_le by simp
  qed
qed

lemma byte_compare_consistent: "consistent_comparator byte_compare"
  unfolding consistent_comparator_def
proof (intro conjI allI impI)
  fix a b show "byte_compare a b \<le> 0 \<or> byte_compare b a \<le> 0"
    by (rule byte_compare_total)
next
  fix a b c assume "byte_compare a b \<le> 0 \<and> byte_compare b c \<le> 0"
  then show "byte_compare a c \<le> 0"
    using byte_compare_trans [of a b c] by simp
qed

lemma sample_collation: "consistent_comparator (localeCompare sample_host)"
  by (simp add: sample_host_def byte_compare_consistent)

section \<open>C9: the order of a plain listing\<close>

lemma array_sort_ordered:
  assumes "consistent_comparator (localeCompare h)"
  shows "listing_ordered h (array_sort (plain_cmp h) rows)"
proof -
  let ?R = "\<lambda>a b. plain_cmp h a b \<le> 0"
  let ?L = "\<lambda>a b. localeCompare h (r_name a) (r_name b) \<le> 0"
  let ?s = "array_sort (plain_cmp h) rows"
  have srt: "sorted_wrt ?R ?s"
    using assms by (intro sorted_array_sort plain_cmp_consistent)
  have sp: "?s = filter r_isDir ?s @ filter (\<lambda>r. \<not> r_isDir r) ?s"
    using srt by (rule sorted_splits) (rule plain_cmp_dir_first)
  have "sorted_wrt ?R (filter r_isDir ?s)"
    using srt by (rule sorted_wrt_filter)
  then have ds: "sorted_wrt ?L (filter r_isDir ?s)"
    by (rule sorted_wrt_mono_rel [rotated]) (simp add: plain_cmp_same_kind)
  have "sorted_wrt ?R (filter (\<lambda>r. \<not> r_isDir r) ?s)"
    using srt by (rule sorted_wrt_filter)
  then have fs: "sorted_wrt ?L (filter (\<lambda>r. \<not> r_isDir r) ?s)"
    by (rule sorted_wrt_mono_rel [rotated]) (simp add: plain_cmp_same_kind)
  from sp ds fs show ?thesis
    unfolding listing_ordered_def by (intro conjI)
qed

lemma plain_view_rows:
  assumes "plain_view h key root rel reqPath = (SendHtml page, tr)"
  shows "\<exists>absp list. resolvePathSafe (cwd h) root rel = Some absp \<and> readdir h absp = Inr list \<and>
           p_rows page = array_sort (plain_cmp h) (fst (child_rows h key rel reqPath absp list))"
  using assms
  by (auto simp: plain_view_def Let_def split: if_splits option.splits sum.splits prod.splits)

lemma index_server_rows:
  assumes "index_server h method reqPath = (SendHtml page, tr)"
  shows "\<exists>absp list rows t.
           resolvePathSafe_server (cwd h) (ROOT h) reqPath = Inr (Some absp) \<and>
           readdir h absp = Inr list \<and>
           child_rows_server h reqPath absp list = (Inr rows, t) \<and>
           p_rows page = array_sort (plain_cmp h) rows"
  using assms
  by (auto simp: index_server_def Let_def split: if_splits option.splits sum.splits prod.splits)

lemma section_index_plain:
  assumes "matchSection h reqPath = Some key"
    and "map_of (SECTIONS h) key = Some root"
    and "\<not> (key = ''/games'' \<and> orElse (slice_from reqPath (length key)) ''/'' = ''/'')"
  shows "section_index h reqPath =
         plain_view h key root (orElse (slice_from reqPath (length key)) ''/'') reqPath"
  using assms section_rel_not_Nil [of "slice_from reqPath (length key)"]
  by (auto simp: section_index_def Let_def)

lemma download_handler_no_page: "download_handler h reqPath \<noteq> (SendHtml page, tr)"
  by (auto simp: download_handler_def Let_def split: option.splits sum.splits if_splits)

lemma download_server_no_page: "download_server h reqPath \<noteq> (SendHtml page, tr)"
  by (auto simp: download_server_def Let_def split: option.splits sum.splits if_splits)

lemma app_page:
  assumes "app h reqPath = (SendHtml page, tr)"
  shows "\<exists>tr2. section_index h reqPath = (SendHtml page, tr2)"
proof -
  obtain o1 t1 where d: "download_handler h reqPath = (o1, t1)" by (cases "download_handler h reqPath")
  obtain o2 t2 where i: "section_index h reqPath = (o2, t2)" by (cases "section_index h reqPath")
  from d download_handler_no_page [of h reqPath page t1] have n: "o1 \<noteq> SendHtml page" by auto
  from assms d i n have "o2 = SendHtml page"
    by (cases o1; cases o2) (simp_all add: app_def error_middleware_def split: if_splits)
  with i show ?thesis by simp
qed

lemma app_server_page:
  assumes "app_server h method reqPath = (SendHtml page, tr)"
  shows "\<exists>tr2. index_server h method reqPath = (SendHtml page, tr2)"
proof -
  obtain o1 t1 where d: "download_server h reqPath = (o1, t1)" by (cases "download_server h reqPath")
  obtain o2 t2 where i: "index_server h method reqPath = (o2, t2)"
    by (cases "index_server h method reqPath")
  from d download_server_no_page [of h reqPath page t1] have n: "o1 \<noteq> SendHtml page" by auto
  from assms d i n have "o2 = SendHtml page"
    by (cases o1; cases o2) (simp_all add: app_server_def error_middleware_def)
  with i show ?thesis by simp
qed

lemma plain_cmp_example:
  "r_isDir d \<Longrightarrow> \<not> r_isDir f \<Longrightarrow> array_sort (plain_cmp h) [f, d] = [d, f]"
  by (simp add: array_sort_def plain_cmp_def bool_num_def Let_def)

lemma section_listing_example:
  assumes m: "matchSection h reqPath = Some key"
    and r: "map_of (SECTIONS h) key = Some root"
    and n: "\<not> (key = ''/games'' \<and> orElse (slice_from reqPath (length key)) ''/'' = ''/'')"
    and f: "key = ''/games'' \<longrightarrow> isAllowedGamesRel (orElse (slice_from reqPath (length key)) ''/'')"
    and rs: "resolvePathSafe (cwd h) root (orElse (slice_from reqPath (length key)) ''/'') = Some absp"
    and l: "lstat h absp = Inr st" "st_isDirectory st"
    and rd: "readdir h absp = Inr [file_entry ''b.txt'', dir_entry ''a'']"
    and c1: "lstat h (path_join [absp, ''b.txt'']) = Inr s1"
    and c2: "lstat h (path_join [absp, ''a'']) = Inr s2"
  shows "page_rows (fst (section_index h reqPath)) =
           Some [child_row key (orElse (slice_from reqPath (length key)) ''/'') reqPath (dir_entry ''a'') s2,
                 child_row key (orElse (slice_from reqPath (length key)) ''/'') reqPath (file_entry ''b.txt'') s1]"
    and "page_rows (fst (app h reqPath)) =
           Some [child_row key (orElse (slice_from reqPath (length key)) ''/'') reqPath (dir_entry ''a'') s2,
                 child_row key (orElse (slice_from reqPath (length key)) ''/'') reqPath (file_entry ''b.txt'') s1]"
proof -
  let ?rel = "orElse (slice_from reqPath (length key)) ''/''"
  let ?d = "child_row key ?rel reqPath (dir_entry ''a'') s2"
  let ?f = "child_row key ?rel reqPath (file_entry ''b.txt'') s1"
  have n1: "d_name (file_entry ''b.txt'') = ''b.txt''" and n2: "d_name (dir_entry ''a'') = ''a''"
    by (simp_all add: file_entry_def dir_entry_def)
  have cr: "fst (child_rows h key ?rel reqPath absp [file_entry ''b.txt'', dir_entry ''a'']) = [?f, ?d]"
    using c1 c2 by (simp add: n1 n2 Let_def)
  have k: "r_isDir ?d" "\<not> r_isDir ?f"
    by (simp_all add: child_row_def file_entry_def dir_entry_def Let_def)
  have pv: "fst (plain_view h key root ?rel reqPath) =
        SendHtml
        \<lparr>p_title = safeDecodePath (orElse reqPath ''/''),
         p_rows = [?d, ?f],
         p_showMode = True,
         p_parentLink =
           (safeDecodePath (orElse reqPath ''/'') \<noteq>
              ''/'' @ first_part (safeDecodePath (orElse reqPath ''/'')) @ ''/'' \<and>
            safeDecodePath (orElse reqPath ''/'') \<noteq>
              ''/'' @ first_part (safeDecodePath (orElse reqPath ''/'')))\<rparr>"
    unfolding plain_view_listing [OF f rs l rd] cr plain_cmp_example [OF k] by simp
  have si: "section_index h reqPath = plain_view h key root ?rel reqPath"
    using m r n by (rule section_index_plain)
  show "page_rows (fst (section_index h reqPath)) = Some [?d, ?f]"
    unfolding si pv by (simp add: page_rows_def)
  have d: "download_handler h reqPath = (Next, [Lstat absp])"
    using m r f rs l by (simp add: download_handler_def Let_def)
  obtain t2 where i: "section_index h reqPath = (fst (plain_view h key root ?rel reqPath), t2)"
    unfolding si by (cases "plain_view h key root ?rel reqPath") simp
  from d matchSection_not_home [OF m]
  show "page_rows (fst (app h reqPath)) = Some [?d, ?f]"
    unfolding app_def i pv by (simp add: page_rows_def)
qed

lemma resolvePathSafe_server_decodes:
  "resolvePathSafe_server wd root reqPath = Inr r \<Longrightarrow>
   \<exists>decoded. decodeURIComponent (orElse reqPath ''/'') = Some decoded"
  by (auto simp: resolvePathSafe_server_def split: option.splits)

lemma server_listing_example:
  assumes g: "method = GET \<or> method = HEAD"
    and rs: "resolvePathSafe_server (cwd h) (ROOT h) reqPath = Inr (Some absp)"
    and l: "lstat h absp = Inr st" "st_isDirectory st"
    and rd: "readdir h absp = Inr [file_entry ''b.txt'', dir_entry ''a'']"
    and c1: "lstat h (path_join [absp, ''b.txt'']) = Inr s1"
    and c2: "lstat h (path_join [absp, ''a'']) = Inr s2"
  shows "page_rows (fst (index_server h method reqPath)) =
           Some [server_row reqPath (dir_entry ''a'') s2, server_row reqPath (file_entry ''b.txt'') s1]"
    and "page_rows (fst (app_server h method reqPath)) =
           Some [server_row reqPath (dir_entry ''a'') s2, server_row reqPath (file_entry ''b.txt'') s1]"
proof -
  let ?d = "server_row reqPath (dir_entry ''a'') s2"
  let ?f = "server_row reqPath (file_entry ''b.txt'') s1"
  have n1: "d_name (file_entry ''b.txt'') = ''b.txt''" and n2: "d_name (dir_entry ''a'') = ''a''"
    by (simp_all add: file_entry_def dir_entry_def)
  have cr: "child_rows_server h reqPath absp [file_entry ''b.txt'', dir_entry ''a''] =
            (Inr [?f, ?d], [Lstat (path_join [absp, ''b.txt'']), Lstat (path_join [absp, ''a''])])"
    using c1 c2 by (simp add: n1 n2 Let_def)
  have k: "r_isDir ?d" "\<not> r_isDir ?f"
    by (simp_all add: server_row_def file_entry_def dir_entry_def Let_def)
  from resolvePathSafe_server_decodes [OF rs]
  obtain decoded where dc: "decodeURIComponent (orElse reqPath ''/'') = Some decoded" by blast
  have ix: "index_server h method reqPath =
        (SendHtml \<lparr>p_title = ''Index '' @ orElse decoded ''/'',
                   p_rows = [?d, ?f],
                   p_showMode = False,
                   p_parentLink = (decoded \<noteq> ''/'' \<and> decoded \<noteq> [])\<rparr>,
         [Lstat absp, Readdir absp, Lstat (path_join [absp, ''b.txt'']),
          Lstat (path_join [absp, ''a''])])"
    using g rs l rd dc c1 c2 by (auto simp: index_server_def n1 n2 plain_cmp_example [OF k])
  show "page_rows (fst (index_server h method reqPath)) = Some [?d, ?f]"
    unfolding ix by (simp add: page_rows_def)
  have d: "download_server h reqPath = (Next, [Lstat absp])"
    using rs l by (simp add: download_server_def)
  show "page_rows (fst (app_server h method reqPath)) = Some [?d, ?f]"
    unfolding app_server_def d ix by (simp add: page_rows_def)
qed

text \<open>
  C9. With a collation that is a consistent comparator, the page that the index
  middleware sends as a plain listing (every page it sends outside the union view of
  \<open>/games\<close>, and every page of the single-root server), also as the answer of the whole
  chain, carries the rows of the children sorted by
  \<open>(b.isDir - a.isDir) || a.name.localeCompare(b.name, 'fr')\<close>: the same rows, all
  directories before all files, and inside each group the names in the order of the
  collation. Whatever the collation, a directory that holds the file \<open>b.txt\<close> and the
  directory \<open>a\<close>, read in this order, is listed as \<open>a\<close>, then \<open>b.txt\<close>, by both
  servers.
\<close>

theorem plain_listing_order:
  assumes "consistent_comparator (localeCompare h)"
  shows "(matchSection h reqPath = Some key \<and> map_of (SECTIONS h) key = Some root \<and>
          rel = orElse (slice_from reqPath (length key)) ''/'' \<and>
          \<not> (key = ''/games'' \<and> rel = ''/'') \<longrightarrow>
            (section_index h reqPath = (SendHtml page, tr) \<or> app h reqPath = (SendHtml page, tr) \<longrightarrow>
               listing_ordered h (p_rows page) \<and>
               (\<exists>absp list. resolvePathSafe (cwd h) root rel = Some absp \<and>
                  readdir h absp = Inr list \<and>
                  mset (p_rows page) = mset (fst (child_rows h key rel reqPath absp list)))) \<and>
            ((key = ''/games'' \<longrightarrow> isAllowedGamesRel rel) \<and>
             resolvePathSafe (cwd h) root rel = Some dir_path \<and>
             lstat h dir_path = Inr st \<and> st_isDirectory st \<and>
             readdir h dir_path = Inr [file_entry ''b.txt'', dir_entry ''a''] \<and>
             lstat h (path_join [dir_path, ''b.txt'']) = Inr s1 \<and>
             lstat h (path_join [dir_path, ''a'']) = Inr s2 \<longrightarrow>
               page_rows (fst (section_index h reqPath)) =
                 Some [child_row key rel reqPath (dir_entry ''a'') s2,
                       child_row key rel reqPath (file_entry ''b.txt'') s1] \<and>
               page_rows (fst (app h reqPath)) =
                 Some [child_row key rel reqPath (dir_entry ''a'') s2,
                       child_row key rel reqPath (file_entry ''b.txt'') s1])) \<and>
         (index_server h method reqPath = (SendHtml page, tr) \<or>
          app_server h method reqPath = (SendHtml page, tr) \<longrightarrow>
            listing_ordered h (p_rows page) \<and>
            (\<exists>absp list rows t.
               resolvePathSafe_server (cwd h) (ROOT h) reqPath = Inr (Some absp) \<and>
               readdir h absp = Inr list \<and>
               child_rows_server h reqPath absp list = (Inr rows, t) \<and>
               mset (p_rows page) = mset rows)) \<and>
         ((method = GET \<or> method = HEAD) \<and>
          resolvePathSafe_server (cwd h) (ROOT h) reqPath = Inr (Some dir_path) \<and>
          lstat h dir_path = Inr st \<and> st_isDirectory st \<and>
          readdir h dir_path = Inr [file_entry ''b.txt'', dir_entry ''a''] \<and>
          lstat h (path_join [dir_path, ''b.txt'']) = Inr s1 \<and>
          lstat h (path_join [dir_path, ''a'']) = Inr s2 \<longrightarrow>
            page_rows (fst (index_server h method reqPath)) =
              Some [server_row reqPath (dir_entry ''a'') s2,
                    server_row reqPath (file_entry ''b.txt'') s1] \<and>
            page_rows (fst (app_server h method reqPath)) =
              Some [server_row reqPath (dir_entry ''a'') s2,
                    server_row reqPath (file_entry ''b.txt'') s1])"
proof (intro conjI impI)
  assume a: "matchSection h reqPath = Some key \<and> map_of (SECTIONS h) key = Some root \<and>
          rel = orElse (slice_from reqPath (length key)) ''/'' \<and>
          \<not> (key = ''/games'' \<and> rel = ''/'')"
  then have m: "matchSection h reqPath = Some key" and r: "map_of (SECTIONS h) key = Some root"
    and re: "rel = orElse (slice_from reqPath (length key)) ''/''"
    by simp_all
  from a have n: "\<not> (key = ''/games'' \<and> orElse (slice_from reqPath (length key)) ''/'' = ''/'')"
    by auto
  have si: "section_index h reqPath = plain_view h key root rel reqPath"
    unfolding re using m r n by (rule section_index_plain)
  assume "section_index h reqPath = (SendHtml page, tr) \<or> app h reqPath = (SendHtml page, tr)"
  with app_page [of h reqPath page tr]
  obtain t2 where "section_index h reqPath = (SendHtml page, t2)" by blast
  with si have "plain_view h key root rel reqPath = (SendHtml page, t2)" by simp
  from plain_view_rows [OF this]
  obtain absp list where rs: "resolvePathSafe (cwd h) root rel = Some absp"
    and rd: "readdir h absp = Inr list"
    and p: "p_rows page = array_sort (plain_cmp h) (fst (child_rows h key rel reqPath absp list))"
    by blast
  show "listing_ordered h (p_rows page)"
    unfolding p using assms by (rule array_sort_ordered)
  have "mset (p_rows page) = mset (fst (child_rows h key rel reqPath absp list))"
    unfolding p by (rule mset_array_sort)
  with rs rd
  show "\<exists>absp list. resolvePathSafe (cwd h) root rel = Some absp \<and>
          readdir h absp = Inr list \<and>
          mset (p_rows page) = mset (fst (child_rows h key rel reqPath absp list))"
    by blast
next
  assume a: "matchSection h reqPath = Some key \<and> map_of (SECTIONS h) key = Some root \<and>
          rel = orElse (slice_from reqPath (length key)) ''/'' \<and>
          \<not> (key = ''/games'' \<and> rel = ''/'')"
    and b: "(key = ''/games'' \<longrightarrow> isAllowedGamesRel rel) \<and>
             resolvePathSafe (cwd h) root rel = Some dir_path \<and>
             lstat h dir_path = Inr st \<and> st_isDirectory st \<and>
             readdir h dir_path = Inr [file_entry ''b.txt'', dir_entry ''a''] \<and>
             lstat h (path_join [dir_path, ''b.txt'']) = Inr s1 \<and>
             lstat h (path_join [dir_path, ''a'']) = Inr s2"
  from a have m: "matchSection h reqPath = Some key" and r: "map_of (SECTIONS h) key = Some root"
    and re: "rel = orElse (slice_from reqPath (length key)) ''/''"
    by simp_all
  from a have n: "\<not> (key = ''/games'' \<and> orElse (slice_from reqPath (length key)) ''/'' = ''/'')"
    by auto
  let ?rel = "orElse (slice_from reqPath (length key)) ''/''"
  from b re have f: "key = ''/games'' \<longrightarrow> isAllowedGamesRel ?rel"
    and rs: "resolvePathSafe (cwd h) root ?rel = Some dir_path"
    and l: "lstat h dir_path = Inr st" "st_isDirectory st"
    and rd: "readdir h dir_path = Inr [file_entry ''b.txt'', dir_entry ''a'']"
    and c1: "lstat h (path_join [dir_path, ''b.txt'']) = Inr s1"
    and c2: "lstat h (path_join [dir_path, ''a'']) = Inr s2"
    by simp_all
  show "page_rows (fst (section_index h reqPath)) =
                 Some [child_row key rel reqPath (dir_entry ''a'') s2,
                       child_row key rel reqPath (file_entry ''b.txt'') s1]"
    unfolding re by (rule section_listing_example(1) [OF m r n f rs l rd c1 c2])
  show "page_rows (fst (app h reqPath)) =
                 Some [child_row key rel reqPath (dir_entry ''a'') s2,
                       child_row key rel reqPath (file_entry ''b.txt'') s1]"
    unfolding re by (rule section_listing_example(2) [OF m r n f rs l rd c1 c2])
next
  assume "index_server h method reqPath = (SendHtml page, tr) \<or>
          app_server h method reqPath = (SendHtml page, tr)"
  with app_server_page
  obtain t2 where "index_server h method reqPath = (SendHtml page, t2)" by blast
  from index_server_rows [OF this]
  obtain absp list rows t where rs: "resolvePathSafe_server (cwd h) (ROOT h) reqPath = Inr (Some absp)"
    and rd: "readdir h absp = Inr list"
    and cr: "child_rows_server h reqPath absp list = (Inr rows, t)"
    and p: "p_rows page = array_sort (plain_cmp h) rows"
    by blast
  show "listing_ordered h (p_rows page)"
    unfolding p using assms by (rule array_sort_ordered)
  have "mset (p_rows page) = mset rows"
    unfolding p by (rule mset_array_sort)
  with rs rd cr
  show "\<exists>absp list rows t.
               resolvePathSafe_server (cwd h) (ROOT h) reqPath = Inr (Some absp) \<and>
               readdir h absp = Inr list \<and>
               child_rows_server h reqPath absp list = (Inr rows, t) \<and>
               mset (p_rows page) = mset rows"
    by blast
next
  assume b: "(method = GET \<or> method = HEAD) \<and>
          resolvePathSafe_server (cwd h) (ROOT h) reqPath = Inr (Some dir_path) \<and>
          lstat h dir_path = Inr st \<and> st_isDirectory st \<and>
          readdir h dir_path = Inr [file_entry ''b.txt'', dir_entry ''a''] \<and>
          lstat h (path_join [dir_path, ''b.txt'']) = Inr s1 \<and>
          lstat h (path_join [dir_path, ''a'']) = Inr s2"
  from b have g: "method = GET \<or> method = HEAD"
    and rs: "resolvePathSafe_server (cwd h) (ROOT h) reqPath = Inr (Some dir_path)"
    and l: "lstat h dir_path = Inr st" "st_isDirectory st"
    and rd: "readdir h dir_path = Inr [file_entry ''b.txt'', dir_entry ''a'']"
    and c1: "lstat h (path_join [dir_path, ''b.txt'']) = Inr s1"
    and c2: "lstat h (path_join [dir_path, ''a'']) = Inr s2"
    by simp_all
  show "page_rows (fst (index_server h method reqPath)) =
              Some [server_row reqPath (dir_entry ''a'') s2,
                    server_row reqPath (file_entry ''b.txt'') s1]"
    by (rule server_listing_example(1) [OF g rs l rd c1 c2])
  show "page_rows (fst (app_server h method reqPath)) =
              Some [server_row reqPath (dir_entry ''a'') s2,
                    server_row reqPath (file_entry ''b.txt'') s1]"
    by (rule server_listing_example(2) [OF g rs l rd c1 c2])
qed

theorem plain_listing_order_witness:
  "consistent_comparator (localeCompare sample_host) \<and>
   matchSection sample_host ''/docs/a/a%20b%26c/'' = Some ''/docs'' \<and>
   readdir sample_host ''/srv/files/docs/a/a b&c'' = Inr [file_entry ''b.txt'', dir_entry ''a''] \<and>
   app sample_host ''/docs/a/a%20b%26c/'' =
     (SendHtml
        \<lparr>p_title = ''/docs/a/a b&c/'',
         p_rows =
           [\<lparr>r_name = ''a/'', r_href = ''/docs/a/a%20b%26c/a/'',
             r_isDir = True, r_size = None, r_mtime = 7, r_mode = None\<rparr>,
            \<lparr>r_name = ''b.txt'', r_href = ''/docs/a/a%20b%26c/b.txt'',
             r_isDir = False, r_size = Some 10, r_mtime = 7, r_mode = None\<rparr>],
         p_showMode = True, p_parentLink = True\<rparr>,
      [Lstat ''/srv/files/docs/a/a b&c'', Lstat ''/srv/files/docs/a/a b&c'',
       Readdir ''/srv/files/docs/a/a b&c'',
       Lstat ''/srv/files/docs/a/a b&c/b.txt'', Lstat ''/srv/files/docs/a/a b&c/a'']) \<and>
   listing_ordered sample_host
     [\<lparr>r_name = ''a/'', r_href = ''/docs/a/a%20b%26c/a/'',
       r_isDir = True, r_size = None, r_mtime = 7, r_mode = None\<rparr>,
      \<lparr>r_name = ''b.txt'', r_href = ''/docs/a/a%20b%26c/b.txt'',
       r_isDir = False, r_size = Some 10, r_mtime = 7, r_mode = None\<rparr>] \<and>
   page_rows (fst (section_index sample_host ''/docs/a/a%20b%26c/'')) =
     Some [child_row ''/docs'' ''/a/a%20b%26c/'' ''/docs/a/a%20b%26c/'' (dir_entry ''a'') sample_dir,
           child_row ''/docs'' ''/a/a%20b%26c/'' ''/docs/a/a%20b%26c/'' (file_entry ''b.txt'')
             (sample_file 10)] \<and>
   app_server sample_host GET ''/docs/a/a%20b%26c/'' =
     (SendHtml
        \<lparr>p_title = ''Index /docs/a/a b&c/'',
         p_rows =
           [\<lparr>r_name = ''a/'', r_href = ''/docs/a/a%20b%26c/a/'',
             r_isDir = True, r_size = None, r_mtime = 7, r_mode = None\<rparr>,
            \<lparr>r_name = ''b.txt'', r_href = ''/docs/a/a%20b%26c/b.txt'',
             r_isDir = False, r_size = Some 10, r_mtime = 7, r_mode = None\<rparr>],
         p_showMode = False, p_parentLink = True\<rparr>,
      [Lstat ''/srv/files/docs/a/a b&c'', Lstat ''/srv/files/docs/a/a b&c'',
       Readdir ''/srv/files/docs/a/a b&c'',
       Lstat ''/srv/files/docs/a/a b&c/b.txt'', Lstat ''/srv/files/docs/a/a b&c/a'']) \<and>
   page_rows (fst (index_server sample_host GET ''/docs/a/a%20b%26c/'')) =
     Some [server_row ''/docs/a/a%20b%26c/'' (dir_entry ''a'') sample_dir,
           server_row ''/docs/a/a%20b%26c/'' (file_entry ''b.txt'') (sample_file 10)]"
proof -
  let ?rp = "''/docs/a/a%20b%26c/''"
  let ?rows = "[\<lparr>r_name = ''a/'', r_href = ''/docs/a/a%20b%26c/a/'',
       r_isDir = True, r_size = None, r_mtime = 7, r_mode = None\<rparr>,
      \<lparr>r_name = ''b.txt'', r_href = ''/docs/a/a%20b%26c/b.txt'',
       r_isDir = False, r_size = Some 10, r_mtime = 7, r_mode = None\<rparr>]"
  let ?P1 = "\<lparr>p_title = ''/docs/a/a b&c/'', p_rows = ?rows, p_showMode = True, p_parentLink = True\<rparr>"
  let ?P2 = "\<lparr>p_title = ''Index /docs/a/a b&c/'', p_rows = ?rows, p_showMode = False,
             p_parentLink = True\<rparr>"
  let ?T = "[Lstat ''/srv/files/docs/a/a b&c'', Lstat ''/srv/files/docs/a/a b&c'',
       Readdir ''/srv/files/docs/a/a b&c'',
       Lstat ''/srv/files/docs/a/a b&c/b.txt'', Lstat ''/srv/files/docs/a/a b&c/a'']"
  have m: "matchSection sample_host ?rp = Some ''/docs''"
    by (simp add: matchSection_def SECTIONS_def startsWith_def)
  have rd: "readdir sample_host ''/srv/files/docs/a/a b&c'' = Inr [file_entry ''b.txt'', dir_entry ''a'']"
    by (simp add: sample_host_def sample_readdir_def)
  have e1: "app sample_host ?rp = (SendHtml ?P1, ?T)"
    by (simp add: js_eval)
  have e2: "app_server sample_host GET ?rp = (SendHtml ?P2, ?T)"
    by (simp add: js_eval)
  have h1: "matchSection sample_host ?rp = Some ''/docs'' \<and>
            map_of (SECTIONS sample_host) ''/docs'' = Some ''/srv/files/docs'' \<and>
            ''/a/a%20b%26c/'' = orElse (slice_from ?rp (length ''/docs'')) ''/'' \<and>
            \<not> (''/docs'' = ''/games'' \<and> ''/a/a%20b%26c/'' = ''/'')"
    by (simp add: m sample_sections orElse_def slice_from_def)
  have h2: "(''/docs'' = ''/games'' \<longrightarrow> isAllowedGamesRel ''/a/a%20b%26c/'') \<and>
            resolvePathSafe (cwd sample_host) ''/srv/files/docs'' ''/a/a%20b%26c/'' =
              Some ''/srv/files/docs/a/a b&c'' \<and>
            lstat sample_host ''/srv/files/docs/a/a b&c'' = Inr sample_dir \<and>
            st_isDirectory sample_dir \<and>
            readdir sample_host ''/srv/files/docs/a/a b&c'' =
              Inr [file_entry ''b.txt'', dir_entry ''a''] \<and>
            lstat sample_host (path_join [''/srv/files/docs/a/a b&c'', ''b.txt'']) =
              Inr (sample_file 10) \<and>
            lstat sample_host (path_join [''/srv/files/docs/a/a b&c'', ''a'']) = Inr sample_dir"
    by (simp add: js_eval)
  have h3: "(GET = GET \<or> GET = HEAD) \<and>
            resolvePathSafe_server (cwd sample_host) (ROOT sample_host) ?rp =
              Inr (Some ''/srv/files/docs/a/a b&c'') \<and>
            lstat sample_host ''/srv/files/docs/a/a b&c'' = Inr sample_dir \<and>
            st_isDirectory sample_dir \<and>
            readdir sample_host ''/srv/files/docs/a/a b&c'' =
              Inr [file_entry ''b.txt'', dir_entry ''a''] \<and>
            lstat sample_host (path_join [''/srv/files/docs/a/a b&c'', ''b.txt'']) =
              Inr (sample_file 10) \<and>
            lstat sample_host (path_join [''/srv/files/docs/a/a b&c'', ''a'']) = Inr sample_dir"
    by (simp add: js_eval)
  note t = plain_listing_order [OF sample_collation, where reqPath = ?rp and key = "''/docs''"
      and root = "''/srv/files/docs''" and rel = "''/a/a%20b%26c/''"
      and dir_path = "''/srv/files/docs/a/a b&c''" and st = sample_dir and ?s1.0 = "sample_file 10"
      and ?s2.0 = sample_dir]
  note a = t [THEN conjunct1, THEN mp, OF h1]
  have w1: "listing_ordered sample_host (p_rows ?P1)"
    by (rule a [THEN conjunct1, THEN mp, OF disjI2 [OF e1],
          THEN conjunct1])
  have w2: "page_rows (fst (section_index sample_host ?rp)) =
     Some [child_row ''/docs'' ''/a/a%20b%26c/'' ?rp (dir_entry ''a'') sample_dir,
           child_row ''/docs'' ''/a/a%20b%26c/'' ?rp (file_entry ''b.txt'') (sample_file 10)]"
    by (rule a [THEN conjunct2, THEN mp, OF h2, THEN conjunct1])
  have w3: "page_rows (fst (index_server sample_host GET ?rp)) =
     Some [server_row ?rp (dir_entry ''a'') sample_dir,
           server_row ?rp (file_entry ''b.txt'') (sample_file 10)]"
    by (rule t [THEN conjunct2, THEN conjunct2, THEN mp, OF h3, THEN conjunct1])
  from w1 have w1': "listing_ordered sample_host ?rows" by simp
  from sample_collation m rd e1 w1' w2 e2 w3 show ?thesis
    by (intro conjI)
qed

section \<open>C5: the union listing\<close>

lemma bucket_rows_rows:
  "fst (bucket_rows h b list) =
   concat (map (\<lambda>e. if \<not> d_isFile e then []
                      else (case lstat h (path_join [dir b, d_name e]) of
                              Inl _ \<Rightarrow> [] | Inr s \<Rightarrow> [bucket_row b e s])) list)"
  by (induction list) (auto simp: Let_def split: prod.splits sum.splits)

lemma union_rows_rows:
  "fst (union_rows h bs) =
   concat (map (\<lambda>b. case readdir h (dir b) of
                        Inl _ \<Rightarrow> [] | Inr list \<Rightarrow> fst (bucket_rows h b list)) bs)"
  by (induction bs) (auto split: prod.splits sum.splits)

lemma union_rows_skip:
  "readdir h (dir b) = Inl err \<Longrightarrow>
   fst (union_rows h (bs1 @ b # bs2)) = fst (union_rows h (bs1 @ bs2))"
  by (simp add: union_rows_rows)

lemma bucket_row_origin:
  "r \<in> set (fst (bucket_rows h b list)) \<Longrightarrow>
   \<exists>e s. e \<in> set list \<and> d_isFile e \<and> lstat h (path_join [dir b, d_name e]) = Inr s \<and>
         r = bucket_row b e s"
proof (induction list)
  case Nil
  then show ?case by simp
next
  case (Cons e es)
  show ?case
  proof (cases "d_isFile e")
    case False
    with Cons show ?thesis by auto
  next
    case True
    show ?thesis
    proof (cases "lstat h (path_join [dir b, d_name e])")
      case (Inl err)
      with True Cons show ?thesis by (auto simp: Let_def split: prod.splits)
    next
      case (Inr s)
      with True Cons.prems have "r = bucket_row b e s \<or> r \<in> set (fst (bucket_rows h b es))"
        by (auto simp: Let_def split: prod.splits)
      then show ?thesis
      proof
        assume "r = bucket_row b e s"
        with True Inr show ?thesis by auto
      next
        assume "r \<in> set (fst (bucket_rows h b es))"
        from Cons.IH [OF this] show ?thesis by auto
      qed
    qed
  qed
qed

lemma union_row_origin:
  "r \<in> set (fst (union_rows h bs)) \<Longrightarrow>
   \<exists>b\<in>set bs. \<exists>list e s. readdir h (dir b) = Inr list \<and> e \<in> set list \<and> d_isFile e \<and>
           lstat h (path_join [dir b, d_name e]) = Inr s \<and> r = bucket_row b e s"
proof (induction bs)
  case Nil
  then show ?case by simp
next
  case (Cons b bs)
  show ?case
  proof (cases "readdir h (dir b)")
    case (Inl err)
    with Cons.prems have "r \<in> set (fst (union_rows h bs))"
      by (auto split: prod.splits)
    from Cons.IH [OF this] show ?thesis by auto
  next
    case (Inr list)
    with Cons.prems have "r \<in> set (fst (bucket_rows h b list)) \<or> r \<in> set (fst (union_rows h bs))"
      by (auto split: prod.splits)
    then show ?thesis
    proof
      assume "r \<in> set (fst (bucket_rows h b list))"
      from bucket_row_origin [OF this] Inr show ?thesis by auto
    next
      assume "r \<in> set (fst (union_rows h bs))"
      from Cons.IH [OF this] show ?thesis by auto
    qed
  qed
qed

lemma bucket_row_fields:
  "r_name (bucket_row b e s) = d_name e" "\<not> r_isDir (bucket_row b e s)"
  "r_mode (bucket_row b e s) = Some (mode b)"
  "r_href (bucket_row b e s) = ''/games/'' @ slug b @ ''/'' @ encodeURIComponent (d_name e)"
  by (simp_all add: bucket_row_def)


text \<open>
  C5. The union view always answers with a page. Its rows are the rows collected from
  the buckets, sorted by name in the order of the collation. Every row is a regular
  file of a bucket directory that could be read and stat'ed, is not a directory row, and
  carries the mode of its bucket. A bucket whose directory cannot be read contributes
  nothing: the rows are those of the configuration without that bucket. When \<open>solo\<close>
  holds \<open>b.zip\<close> and \<open>a.zip\<close>, in either enumeration order, and \<open>multi\<close> holds
  \<open>c.zip\<close>, and the collation orders the three names alphabetically, the rows are
  \<open>a.zip\<close> and \<open>b.zip\<close> of \<open>solo\<close>, then \<open>c.zip\<close> of \<open>multi\<close>.
\<close>

theorem union_listing:
  assumes "consistent_comparator (localeCompare h)"
    and "soloB = \<lparr>slug = ''solo'', dir = path_join [ROOT h, ''games'', ''solo''], mode = ''solo''\<rparr>"
    and "multiB = \<lparr>slug = ''multi'', dir = path_join [ROOT h, ''games'', ''multi''], mode = ''coop''\<rparr>"
    and "rows = array_sort (union_cmp h) (fst (union_rows h (GAMES_BUCKETS h)))"
  shows "union_view h =
           (SendHtml \<lparr>p_title = ''/games'', p_rows = rows, p_showMode = True, p_parentLink = False\<rparr>,
            snd (union_rows h (GAMES_BUCKETS h))) \<and>
         mset rows = mset (fst (union_rows h (GAMES_BUCKETS h))) \<and>
         sorted_wrt (\<lambda>a b. localeCompare h (r_name a) (r_name b) \<le> 0) rows \<and>
         (\<forall>r\<in>set rows.
            \<not> r_isDir r \<and>
            (\<exists>b\<in>set (GAMES_BUCKETS h). \<exists>list e s.
               readdir h (dir b) = Inr list \<and> e \<in> set list \<and> d_isFile e \<and>
               lstat h (path_join [dir b, d_name e]) = Inr s \<and>
               r = bucket_row b e s \<and> r_name r = d_name e \<and> r_mode r = Some (mode b))) \<and>
         (\<forall>solo_list sa sb sc.
            (solo_list = [file_entry ''b.zip'', file_entry ''a.zip''] \<or>
             solo_list = [file_entry ''a.zip'', file_entry ''b.zip'']) \<and>
            readdir h (dir soloB) = Inr solo_list \<and>
            readdir h (dir multiB) = Inr [file_entry ''c.zip''] \<and>
            lstat h (path_join [dir soloB, ''a.zip'']) = Inr sa \<and>
            lstat h (path_join [dir soloB, ''b.zip'']) = Inr sb \<and>
            lstat h (path_join [dir multiB, ''c.zip'']) = Inr sc \<and>
            localeCompare h ''a.zip'' ''b.zip'' < 0 \<and> localeCompare h ''b.zip'' ''a.zip'' > 0 \<and>
            localeCompare h ''a.zip'' ''c.zip'' < 0 \<and> localeCompare h ''b.zip'' ''c.zip'' < 0 \<longrightarrow>
            rows =
              [bucket_row soloB (file_entry ''a.zip'') sa,
               bucket_row soloB (file_entry ''b.zip'') sb,
               bucket_row multiB (file_entry ''c.zip'') sc]) \<and>
         (\<forall>bs1 b bs2 err. readdir h (dir b) = Inl err \<longrightarrow>
            fst (union_rows h (bs1 @ b # bs2)) = fst (union_rows h (bs1 @ bs2)))"
proof -
  let ?rows = "fst (union_rows h (GAMES_BUCKETS h))"
  have A: "union_view h =
           (SendHtml \<lparr>p_title = ''/games'', p_rows = rows, p_showMode = True, p_parentLink = False\<rparr>,
            snd (union_rows h (GAMES_BUCKETS h)))"
    unfolding assms(4) by (rule union_view_page)
  have B: "mset rows = mset ?rows" unfolding assms(4) by (rule mset_array_sort)
  have "sorted_wrt (\<lambda>a b. union_cmp h a b \<le> 0) rows"
    unfolding assms(4) using assms(1) by (intro sorted_array_sort union_cmp_consistent)
  then have C: "sorted_wrt (\<lambda>a b. localeCompare h (r_name a) (r_name b) \<le> 0) rows"
    by (simp add: union_cmp_def)
  have D: "\<forall>r\<in>set rows.
              \<not> r_isDir r \<and>
              (\<exists>b\<in>set (GAMES_BUCKETS h). \<exists>list e s.
                 readdir h (dir b) = Inr list \<and> e \<in> set list \<and> d_isFile e \<and>
                 lstat h (path_join [dir b, d_name e]) = Inr s \<and>
                 r = bucket_row b e s \<and> r_name r = d_name e \<and> r_mode r = Some (mode b))"
  proof
    fix r assume "r \<in> set rows"
    then have "r \<in> set ?rows" by (simp add: assms(4) set_array_sort)
    from union_row_origin [OF this] obtain b list e s
      where b: "b \<in> set (GAMES_BUCKETS h)" "readdir h (dir b) = Inr list" "e \<in> set list"
        "d_isFile e" "lstat h (path_join [dir b, d_name e]) = Inr s" "r = bucket_row b e s"
      by blast
    then show "\<not> r_isDir r \<and>
              (\<exists>b\<in>set (GAMES_BUCKETS h). \<exists>list e s.
                 readdir h (dir b) = Inr list \<and> e \<in> set list \<and> d_isFile e \<and>
                 lstat h (path_join [dir b, d_name e]) = Inr s \<and>
                 r = bucket_row b e s \<and> r_name r = d_name e \<and> r_mode r = Some (mode b))"
      using bucket_row_fields [of b e s] by blast
  qed
  have E: "\<forall>solo_list sa sb sc.
            (solo_list = [file_entry ''b.zip'', file_entry ''a.zip''] \<or>
             solo_list = [file_entry ''a.zip'', file_entry ''b.zip'']) \<and>
            readdir h (dir soloB) = Inr solo_list \<and>
            readdir h (dir multiB) = Inr [file_entry ''c.zip''] \<and>
            lstat h (path_join [dir soloB, ''a.zip'']) = Inr sa \<and>
            lstat h (path_join [dir soloB, ''b.zip'']) = Inr sb \<and>
            lstat h (path_join [dir multiB, ''c.zip'']) = Inr sc \<and>
            localeCompare h ''a.zip'' ''b.zip'' < 0 \<and> localeCompare h ''b.zip'' ''a.zip'' > 0 \<and>
            localeCompare h ''a.zip'' ''c.zip'' < 0 \<and> localeCompare h ''b.zip'' ''c.zip'' < 0 \<longrightarrow>
            rows =
              [bucket_row soloB (file_entry ''a.zip'') sa,
               bucket_row soloB (file_entry ''b.zip'') sb,
               bucket_row multiB (file_entry ''c.zip'') sc]"
  proof (intro allI impI, elim conjE)
    fix solo_list sa sb sc
    assume l: "solo_list = [file_entry ''b.zip'', file_entry ''a.zip''] \<or>
               solo_list = [file_entry ''a.zip'', file_entry ''b.zip'']"
      and rd: "readdir h (dir soloB) = Inr solo_list"
        "readdir h (dir multiB) = Inr [file_entry ''c.zip'']"
      and ls: "lstat h (path_join [dir soloB, ''a.zip'']) = Inr sa"
        "lstat h (path_join [dir soloB, ''b.zip'']) = Inr sb"
        "lstat h (path_join [dir multiB, ''c.zip'']) = Inr sc"
      and lc: "localeCompare h ''a.zip'' ''b.zip'' < 0" "localeCompare h ''b.zip'' ''a.zip'' > 0"
        "localeCompare h ''a.zip'' ''c.zip'' < 0" "localeCompare h ''b.zip'' ''c.zip'' < 0"
    have gb: "GAMES_BUCKETS h = [soloB, multiB]"
      by (simp add: GAMES_BUCKETS_def assms(2,3))
    have n: "d_name (file_entry n) = n" "d_isFile (file_entry n)" for n
      by (simp_all add: file_entry_def)
    have nm: "r_name (bucket_row b (file_entry n) s) = n" for b n s
      by (simp add: bucket_row_def file_entry_def)
    from l show "rows =
              [bucket_row soloB (file_entry ''a.zip'') sa,
               bucket_row soloB (file_entry ''b.zip'') sb,
               bucket_row multiB (file_entry ''c.zip'') sc]"
    proof
      assume "solo_list = [file_entry ''b.zip'', file_entry ''a.zip'']"
      with rd ls have "?rows = [bucket_row soloB (file_entry ''b.zip'') sb,
                                bucket_row soloB (file_entry ''a.zip'') sa,
                                bucket_row multiB (file_entry ''c.zip'') sc]"
        by (simp add: gb union_rows_rows bucket_rows_rows n)
      with lc show ?thesis
        unfolding assms(4) by (simp add: array_sort_def union_cmp_def nm)
    next
      assume "solo_list = [file_entry ''a.zip'', file_entry ''b.zip'']"
      with rd ls have "?rows = [bucket_row soloB (file_entry ''a.zip'') sa,
                                bucket_row soloB (file_entry ''b.zip'') sb,
                                bucket_row multiB (file_entry ''c.zip'') sc]"
        by (simp add: gb union_rows_rows bucket_rows_rows n)
      with lc show ?thesis
        unfolding assms(4) by (simp add: array_sort_def union_cmp_def nm)
    qed
  qed
  have F: "\<forall>bs1 b bs2 err. readdir h (dir b) = Inl err \<longrightarrow>
           fst (union_rows h (bs1 @ b # bs2)) = fst (union_rows h (bs1 @ bs2))"
    by (simp add: union_rows_skip)
  show ?thesis
    by (intro conjI A B C D E F)
qed

theorem union_listing_witness:
  "consistent_comparator (localeCompare sample_host) \<and>
   readdir sample_host ''/srv/files/games/solo'' = Inr [file_entry ''b.zip'', file_entry ''a.zip''] \<and>
   readdir sample_host ''/srv/files/games/multi'' = Inr [file_entry ''c.zip''] \<and>
   (\<exists>page tr. union_view sample_host = (SendHtml page, tr) \<and>
      map (\<lambda>r. (r_name r, r_mode r, r_href r)) (p_rows page) =
        [(''a.zip'', Some ''solo'', ''/games/solo/a.zip''),
         (''b.zip'', Some ''solo'', ''/games/solo/b.zip''),
         (''c.zip'', Some ''coop'', ''/games/multi/c.zip'')])"
proof -
  define rows where "rows = array_sort (union_cmp sample_host)
                               (fst (union_rows sample_host (GAMES_BUCKETS sample_host)))"
  note U = union_listing [OF sample_collation refl refl rows_def]
  note u = U [THEN conjunct1]
  note e = U [THEN conjunct2, THEN conjunct2, THEN conjunct2, THEN conjunct2, THEN conjunct1,
      rule_format,
      of "[file_entry ''b.zip'', file_entry ''a.zip'']" "sample_file 10" "sample_file 10" "sample_file 10"]
  have p: "path_join [ROOT sample_host, ''games'', ''solo''] = ''/srv/files/games/solo''"
    "path_join [ROOT sample_host, ''games'', ''multi''] = ''/srv/files/games/multi''"
    "path_join [''/srv/files/games/solo'', ''a.zip''] = ''/srv/files/games/solo/a.zip''"
    "path_join [''/srv/files/games/solo'', ''b.zip''] = ''/srv/files/games/solo/b.zip''"
    "path_join [''/srv/files/games/multi'', ''c.zip''] = ''/srv/files/games/multi/c.zip''"
    by (simp_all add: sample_ROOT path_join_def path_normalize_def normalizeString_def norm_step_def)
  have rd: "readdir sample_host ''/srv/files/games/solo'' = Inr [file_entry ''b.zip'', file_entry ''a.zip'']"
    "readdir sample_host ''/srv/files/games/multi'' = Inr [file_entry ''c.zip'']"
    by (simp_all add: sample_host_def sample_readdir_def)
  have ls: "lstat sample_host ''/srv/files/games/solo/a.zip'' = Inr (sample_file 10)"
    "lstat sample_host ''/srv/files/games/solo/b.zip'' = Inr (sample_file 10)"
    "lstat sample_host ''/srv/files/games/multi/c.zip'' = Inr (sample_file 10)"
    by (simp_all add: sample_host_def sample_lstat_def)
  have lc: "localeCompare sample_host ''a.zip'' ''b.zip'' < 0"
    "localeCompare sample_host ''b.zip'' ''a.zip'' > 0"
    "localeCompare sample_host ''a.zip'' ''c.zip'' < 0"
    "localeCompare sample_host ''b.zip'' ''c.zip'' < 0"
    by (simp_all add: sample_host_def)
  from e have r: "rows =
      [bucket_row \<lparr>slug = ''solo'', dir = ''/srv/files/games/solo'', mode = ''solo''\<rparr>
         (file_entry ''a.zip'') (sample_file 10),
       bucket_row \<lparr>slug = ''solo'', dir = ''/srv/files/games/solo'', mode = ''solo''\<rparr>
         (file_entry ''b.zip'') (sample_file 10),
       bucket_row \<lparr>slug = ''multi'', dir = ''/srv/files/games/multi'', mode = ''coop''\<rparr>
         (file_entry ''c.zip'') (sample_file 10)]"
    by (simp add: p rd ls lc)
  have "map (\<lambda>r. (r_name r, r_mode r, r_href r)) rows =
        [(''a.zip'', Some ''solo'', ''/games/solo/a.zip''),
         (''b.zip'', Some ''solo'', ''/games/solo/b.zip''),
         (''c.zip'', Some ''coop'', ''/games/multi/c.zip'')]"
    unfolding r
    by (simp add: bucket_row_def file_entry_def encodeURIComponent_def encode_char_def
        uriUnreserved_def)
  with u rd show ?thesis
    by (simp add: sample_collation)
qed

section \<open>C10: the href of a row leads back to the child\<close>

subsection \<open>Decoding what was encoded\<close>


















subsection \<open>Resolving the href\<close>











end
